theory Spec2Isabelle
  imports Main "HOL-Library.Word"
begin

section \<open>Common types\<close>

text \<open>
  \<^verbatim>\<open>frame_id_t\<close> and \<^verbatim>\<open>page_id_t\<close> are 32-bit signed integers; the replacer's counters
  are \<^verbatim>\<open>size_t\<close> (64 bits, unsigned). The nodes of the replacer live on the C++ heap and
  the two pools hold pointers to them, so the model has an explicit store of nodes:
  \<^verbatim>\<open>new\<close> takes the next unused address, \<^verbatim>\<open>delete\<close> removes the node from the
  store, and reading through a pointer whose node is gone is undefined behaviour.
\<close>

type_synonym frame_id = int
type_synonym page_id = int
type_synonym addr = nat

datatype error =
    Unexpected_frame_id
  | Remove_non_evictable
  | Invalid_page_id
  | Undefined_behaviour
  | Logic_error

text \<open>\<^verbatim>\<open>static_cast<size_t>(frame_id)\<close>: a negative id becomes a value near \<open>2 ^ 64\<close>.\<close>

definition size_t_of :: "frame_id \<Rightarrow> nat" where
  "size_t_of frame_id = nat (frame_id mod 2 ^ 64)"

section \<open>The LRU-K replacer (lru\_k\_replacer.cpp)\<close>

record LRUKNode =
  history :: "nat list"
  fid :: frame_id
  is_evictable :: bool

record LRUKReplacer =
  node_store :: "frame_id \<rightharpoonup> addr"
  heap :: "addr \<rightharpoonup> LRUKNode"
  next_addr :: addr
  less_k :: "addr list"
  more_k :: "addr list"
  current_timestamp :: nat
  curr_size :: "64 word"
  replacer_size :: nat
  replacer_k :: nat

text \<open>
  The constructor sets \<^verbatim>\<open>replacer_size_\<close> and \<^verbatim>\<open>k_\<close>. The other members, and the
  members of a node made by \<^verbatim>\<open>new LRUKNode\<close>, take the defaults of the class
  declarations, which are not among the source files.
  Modelled from the spec: empty pools, no tracked node, both counters zero, and a new node
  that is not evictable and has an empty history.
\<close>

definition LRUKReplacer_init :: "nat \<Rightarrow> nat \<Rightarrow> LRUKReplacer" where
  "LRUKReplacer_init num_frames k =
     \<lparr>node_store = Map.empty, heap = Map.empty, next_addr = 0, less_k = [], more_k = [],
      current_timestamp = 0, curr_size = 0, replacer_size = num_frames, replacer_k = k\<rparr>"

text \<open>
  The loop of \<^verbatim>\<open>Evict\<close> over one pool: the first node whose \<^verbatim>\<open>is_evictable_\<close> is set.
\<close>

fun find_evictable :: "(addr \<rightharpoonup> LRUKNode) \<Rightarrow> addr list \<Rightarrow> error + (addr \<times> LRUKNode) option" where
  "find_evictable h [] = Inr None"
| "find_evictable h (a # as) =
     (case h a of
        None \<Rightarrow> Inl Undefined_behaviour
      | Some node \<Rightarrow> if is_evictable node then Inr (Some (a, node)) else find_evictable h as)"

text \<open>
  \<^verbatim>\<open>Evict\<close> returns \<^verbatim>\<open>true\<close> with the frame id written through the pointer, or
  \<^verbatim>\<open>false\<close>; the model returns the frame id as an option.
\<close>

definition Evict :: "LRUKReplacer \<Rightarrow> error + (frame_id option \<times> LRUKReplacer)" where
  "Evict s =
     (case find_evictable (heap s) (less_k s) of
        Inl e \<Rightarrow> Inl e
      | Inr (Some (a, node)) \<Rightarrow>
          Inr (Some (fid node),
               s\<lparr>less_k := removeAll a (less_k s),
                 node_store := (node_store s)(fid node := None),
                 curr_size := curr_size s - 1,
                 heap := (heap s)(a := None)\<rparr>)
      | Inr None \<Rightarrow>
          (case find_evictable (heap s) (more_k s) of
             Inl e \<Rightarrow> Inl e
           | Inr (Some (a, node)) \<Rightarrow>
               Inr (Some (fid node),
                    s\<lparr>more_k := removeAll a (more_k s),
                      node_store := (node_store s)(fid node := None),
                      curr_size := curr_size s - 1,
                      heap := (heap s)(a := None)\<rparr>)
           | Inr None \<Rightarrow> Inr (None, s)))"

text \<open>
  The scan of \<^verbatim>\<open>RecordAccess\<close> over the warm pool: the node goes before the first
  entry whose front-of-history timestamp is greater than \<open>kth\<close>, or to the back.
\<close>

fun insert_more_k :: "(addr \<rightharpoonup> LRUKNode) \<Rightarrow> addr \<Rightarrow> nat \<Rightarrow> addr list \<Rightarrow> error + addr list" where
  "insert_more_k h node kth [] = Inr [node]"
| "insert_more_k h node kth (a # as) =
     (case h a of
        None \<Rightarrow> Inl Undefined_behaviour
      | Some n \<Rightarrow>
          (case history n of
             [] \<Rightarrow> Inl Undefined_behaviour
           | t # _ \<Rightarrow>
               if t > kth then Inr (node # a # as)
               else (case insert_more_k h node kth as of
                       Inl e \<Rightarrow> Inl e
                     | Inr r \<Rightarrow> Inr (a # r))))"

text \<open>
  The tail of \<^verbatim>\<open>RecordAccess\<close> from \<^verbatim>\<open>auto kth = node->history_.front()\<close> on: \<open>s\<close> is
  the state with the node already taken out of its pool and \<open>node\<close> its new contents.
  \<^verbatim>\<open>front()\<close> of an empty history is undefined behaviour.
\<close>

definition reinsert :: "LRUKReplacer \<Rightarrow> addr \<Rightarrow> LRUKNode \<Rightarrow> error + LRUKReplacer" where
  "reinsert s a node =
     (case history node of
        [] \<Rightarrow> Inl Undefined_behaviour
      | kth # _ \<Rightarrow>
          (case insert_more_k ((heap s)(a \<mapsto> node)) a kth (more_k s) of
             Inl e \<Rightarrow> Inl e
           | Inr r \<Rightarrow> Inr (s\<lparr>heap := (heap s)(a \<mapsto> node), more_k := r\<rparr>)))"

text \<open>
  \<^verbatim>\<open>current_timestamp_\<close> is a \<^verbatim>\<open>size_t\<close>: the increment wraps at \<open>2 ^ 64\<close>. The access type
  is not used.
\<close>

definition RecordAccess :: "LRUKReplacer \<Rightarrow> frame_id \<Rightarrow> error + LRUKReplacer" where
  "RecordAccess s frame_id =
     (if size_t_of frame_id > replacer_size s then Inl Unexpected_frame_id
      else
        let ts = (current_timestamp s + 1) mod 2 ^ 64;
            s1 = s\<lparr>current_timestamp := ts\<rparr>
        in (case node_store s1 frame_id of
              None \<Rightarrow>
                let a = next_addr s1;
                    node = \<lparr>history = [ts], fid = frame_id, is_evictable = False\<rparr>
                in Inr (s1\<lparr>heap := (heap s1)(a \<mapsto> node),
                           next_addr := Suc a,
                           node_store := (node_store s1)(frame_id \<mapsto> a),
                           less_k := less_k s1 @ [a]\<rparr>)
            | Some a \<Rightarrow>
                (case heap s1 a of
                   None \<Rightarrow> Inl Undefined_behaviour
                 | Some node0 \<Rightarrow>
                     let node = node0\<lparr>history := history node0 @ [ts]\<rparr>;
                         history_size = length (history node)
                     in if history_size < replacer_k s1
                        then Inr (s1\<lparr>heap := (heap s1)(a \<mapsto> node)\<rparr>)
                        else if history_size = replacer_k s1
                        then reinsert (s1\<lparr>less_k := removeAll a (less_k s1)\<rparr>) a node
                        else reinsert (s1\<lparr>more_k := removeAll a (more_k s1)\<rparr>) a
                               (node\<lparr>history := tl (history node)\<rparr>))))"

definition SetEvictable :: "LRUKReplacer \<Rightarrow> frame_id \<Rightarrow> bool \<Rightarrow> error + LRUKReplacer" where
  "SetEvictable s frame_id set_evictable =
     (if size_t_of frame_id > replacer_size s then Inl Unexpected_frame_id
      else
        (case node_store s frame_id of
           None \<Rightarrow> Inr s
         | Some a \<Rightarrow>
             (case heap s a of
                None \<Rightarrow> Inl Undefined_behaviour
              | Some node \<Rightarrow>
                  if is_evictable node then
                    (if set_evictable then Inr s
                     else Inr (s\<lparr>heap := (heap s)(a \<mapsto> node\<lparr>is_evictable := set_evictable\<rparr>),
                                 curr_size := curr_size s - 1\<rparr>))
                  else
                    (if \<not> set_evictable then Inr s
                     else Inr (s\<lparr>heap := (heap s)(a \<mapsto> node\<lparr>is_evictable := set_evictable\<rparr>),
                                 curr_size := curr_size s + 1\<rparr>)))))"

definition Remove :: "LRUKReplacer \<Rightarrow> frame_id \<Rightarrow> error + LRUKReplacer" where
  "Remove s frame_id =
     (if size_t_of frame_id > replacer_size s then Inl Unexpected_frame_id
      else
        (case node_store s frame_id of
           None \<Rightarrow> Inr s
         | Some a \<Rightarrow>
             (case heap s a of
                None \<Rightarrow> Inl Undefined_behaviour
              | Some node \<Rightarrow>
                  if \<not> is_evictable node then Inl Remove_non_evictable
                  else
                    let s1 = (if length (history node) < replacer_k s
                              then s\<lparr>less_k := removeAll a (less_k s)\<rparr>
                              else s\<lparr>more_k := removeAll a (more_k s)\<rparr>)
                    in Inr (s1\<lparr>heap := (heap s1)(a := None),
                               node_store := (node_store s1)(frame_id := None)\<rparr>))))"

definition Size :: "LRUKReplacer \<Rightarrow> 64 word" where
  "Size s = curr_size s"

text \<open>Sequences of calls on one replacer; the run stops at the first call that fails.\<close>

datatype replacer_op =
    Op_RecordAccess frame_id
  | Op_SetEvictable frame_id bool
  | Op_Evict
  | Op_Remove frame_id

fun apply_op :: "LRUKReplacer \<Rightarrow> replacer_op \<Rightarrow> error + LRUKReplacer" where
  "apply_op s (Op_RecordAccess f) = RecordAccess s f"
| "apply_op s (Op_SetEvictable f b) = SetEvictable s f b"
| "apply_op s Op_Evict = (case Evict s of Inl e \<Rightarrow> Inl e | Inr (_, s') \<Rightarrow> Inr s')"
| "apply_op s (Op_Remove f) = Remove s f"

fun run_ops :: "LRUKReplacer \<Rightarrow> replacer_op list \<Rightarrow> error + LRUKReplacer" where
  "run_ops s [] = Inr s"
| "run_ops s (x # xs) = (case apply_op s x of Inl e \<Rightarrow> Inl e | Inr s' \<Rightarrow> run_ops s' xs)"

section \<open>The buffer pool manager (buffer\_pool\_manager.cpp)\<close>

type_synonym page_data = "8 word list"

text \<open>
  The page size, the invalid page id and the \<^verbatim>\<open>Page\<close> class come from headers that are
  not among the source files.
  Modelled from the spec: a page is a buffer of \<^verbatim>\<open>PAGE_SIZE\<close> bytes with a page id, a
  pin count and a dirty flag; \<^verbatim>\<open>INVALID\<close> is the sentinel page id; a frame that holds no
  page has the sentinel id, pin count 0, a clean flag and zeroed memory.
\<close>

definition PAGE_SIZE :: nat where
  "PAGE_SIZE = 4096"

definition INVALID_PAGE_ID :: page_id where
  "INVALID_PAGE_ID = - 1"

definition INVALID :: page_id where
  "INVALID = INVALID_PAGE_ID"

record Page =
  data :: page_data
  page_id :: page_id
  pin_count :: int
  is_dirty :: bool

definition zeroed :: page_data where
  "zeroed = replicate PAGE_SIZE 0"

definition empty_page :: Page where
  "empty_page = \<lparr>data = zeroed, page_id = INVALID_PAGE_ID, pin_count = 0, is_dirty = False\<rparr>"

text \<open>
  The disk manager is an external collaborator.
  Modelled from the spec: \<^verbatim>\<open>WritePage\<close> persists the bytes of a page, \<^verbatim>\<open>ReadPage\<close>
  returns them, \<^verbatim>\<open>DeallocatePage\<close> is an advisory free that leaves the bytes alone. The
  model keeps the bytes on disk and a log of the calls made.
\<close>

datatype disk_event =
    Ev_WritePage page_id page_data
  | Ev_ReadPage page_id
  | Ev_DeallocatePage page_id

record DiskManager =
  disk_pages :: "page_id \<Rightarrow> page_data"
  disk_log :: "disk_event list"

definition WritePage :: "DiskManager \<Rightarrow> page_id \<Rightarrow> page_data \<Rightarrow> DiskManager" where
  "WritePage dm pid bytes =
     dm\<lparr>disk_pages := (disk_pages dm)(pid := bytes),
        disk_log := disk_log dm @ [Ev_WritePage pid bytes]\<rparr>"

definition ReadPage :: "DiskManager \<Rightarrow> page_id \<Rightarrow> page_data \<times> DiskManager" where
  "ReadPage dm pid = (disk_pages dm pid, dm\<lparr>disk_log := disk_log dm @ [Ev_ReadPage pid]\<rparr>)"

record BufferPoolManager =
  pool_size :: nat
  pages :: "Page list"
  replacer :: LRUKReplacer
  free_list :: "frame_id list"
  page_table :: "page_id \<rightharpoonup> frame_id"
  next_page_id :: page_id
  disk_manager :: DiskManager

definition BufferPoolManager_init :: "nat \<Rightarrow> DiskManager \<Rightarrow> nat \<Rightarrow> BufferPoolManager" where
  "BufferPoolManager_init n dm k =
     \<lparr>pool_size = n,
      pages = replicate n empty_page,
      replacer = LRUKReplacer_init n k,
      free_list = map int [0..<n],
      page_table = Map.empty,
      next_page_id = 0,
      disk_manager = dm\<rparr>"

text \<open>
  \<^verbatim>\<open>pages_ + frame_id\<close>: the frame array has \<^verbatim>\<open>pool_size_\<close> entries, and reading or
  writing a frame outside it is undefined behaviour.
\<close>

definition page_at :: "BufferPoolManager \<Rightarrow> frame_id \<Rightarrow> error + Page" where
  "page_at s frame_id =
     (if 0 \<le> frame_id \<and> nat frame_id < length (pages s)
      then Inr (pages s ! nat frame_id) else Inl Undefined_behaviour)"

definition set_page :: "BufferPoolManager \<Rightarrow> frame_id \<Rightarrow> Page \<Rightarrow> BufferPoolManager" where
  "set_page s frame_id page = s\<lparr>pages := (pages s)[nat frame_id := page]\<rparr>"

text \<open>
  \<^verbatim>\<open>DeallocatePage\<close> of the manager is declared in the header only.
  Modelled from the spec: it notifies the disk manager, which takes the call as advice.
\<close>

definition DeallocatePage :: "BufferPoolManager \<Rightarrow> page_id \<Rightarrow> BufferPoolManager" where
  "DeallocatePage s pid =
     s\<lparr>disk_manager :=
         (disk_manager s)\<lparr>disk_log := disk_log (disk_manager s) @ [Ev_DeallocatePage pid]\<rparr>\<rparr>"

text \<open>
  \<^verbatim>\<open>next_page_id_\<close> is declared in the header as an atomic counter of the 32-bit signed
  \<^verbatim>\<open>page_id_t\<close>: the increment of an atomic wraps in two's complement, from
  \<open>2 ^ 31 - 1\<close> to \<open>- (2 ^ 31)\<close>. The call returns the value before the increment.
\<close>

definition AllocatePage :: "BufferPoolManager \<Rightarrow> page_id \<times> BufferPoolManager" where
  "AllocatePage s =
     (next_page_id s,
      s\<lparr>next_page_id := (next_page_id s + 1 + 2 ^ 31) mod 2 ^ 32 - 2 ^ 31\<rparr>)"

text \<open>
  The pin count is a C++ \<^verbatim>\<open>int\<close>: stepping it past either end of the 32-bit range is
  undefined behaviour.
\<close>

definition UnpinPage :: "BufferPoolManager \<Rightarrow> page_id \<Rightarrow> bool \<Rightarrow> error + (bool \<times> BufferPoolManager)" where
  "UnpinPage s pid dirty =
     (case page_table s pid of
        None \<Rightarrow> Inr (False, s)
      | Some frame_id \<Rightarrow>
          (case page_at s frame_id of
             Inl e \<Rightarrow> Inl e
           | Inr page \<Rightarrow>
               if pin_count page = 0 then Inr (False, s)
               else if pin_count page \<le> - (2 ^ 31) then Inl Undefined_behaviour
               else
                 let page1 = page\<lparr>pin_count := pin_count page - 1\<rparr>
                 in (case (if pin_count page1 = 0
                           then SetEvictable (replacer s) frame_id True
                           else Inr (replacer s)) of
                       Inl e \<Rightarrow> Inl e
                     | Inr r \<Rightarrow>
                         Inr (True,
                              set_page (s\<lparr>replacer := r\<rparr>) frame_id
                                (page1\<lparr>is_dirty := (is_dirty page1 \<or> dirty)\<rparr>)))))"

definition FlushPage :: "BufferPoolManager \<Rightarrow> page_id \<Rightarrow> error + (bool \<times> BufferPoolManager)" where
  "FlushPage s pid =
     (if pid = INVALID_PAGE_ID then Inl Invalid_page_id
      else
        (case page_table s pid of
           None \<Rightarrow> Inr (False, s)
         | Some frame_id \<Rightarrow>
             (case page_at s frame_id of
                Inl e \<Rightarrow> Inl e
              | Inr page \<Rightarrow>
                  Inr (True,
                       set_page (s\<lparr>disk_manager := WritePage (disk_manager s) pid (data page)\<rparr>)
                         frame_id (page\<lparr>is_dirty := False\<rparr>)))))"

definition DeletePage :: "BufferPoolManager \<Rightarrow> page_id \<Rightarrow> error + (bool \<times> BufferPoolManager)" where
  "DeletePage s pid =
     (case page_table s pid of
        None \<Rightarrow> Inr (True, s)
      | Some frame_id \<Rightarrow>
          (case page_at s frame_id of
             Inl e \<Rightarrow> Inl e
           | Inr page \<Rightarrow>
               if pin_count page > 0 then Inr (False, s)
               else
                 (case Remove (replacer s) frame_id of
                    Inl e \<Rightarrow> Inl e
                  | Inr r \<Rightarrow>
                      let s1 = s\<lparr>page_table := (page_table s)(pid := None),
                                 replacer := r,
                                 free_list := free_list s @ [frame_id]\<rparr>;
                          s2 = set_page s1 frame_id
                                 (page\<lparr>data := zeroed, page_id := INVALID_PAGE_ID,
                                       pin_count := 0, is_dirty := False\<rparr>)
                      in Inr (True, DeallocatePage s2 pid))))"

text \<open>
  \<^verbatim>\<open>GetFreeFrame\<close>, \<^verbatim>\<open>InitNewPage\<close> and \<^verbatim>\<open>Pinpage\<close> are called by \<^verbatim>\<open>NewPage\<close> and
  \<^verbatim>\<open>FetchPage\<close> but defined outside the source files.
  Modelled from the spec: \<^verbatim>\<open>GetFreeFrame\<close> pops the free list if it is not empty;
  otherwise it asks the replacer to evict, flushes the evicted frame's page if it is dirty
  and erases the page's entry from the page table; with no free and no evictable frame
  it has reached a logic error.
\<close>

definition GetFreeFrame :: "BufferPoolManager \<Rightarrow> error + (frame_id \<times> BufferPoolManager)" where
  "GetFreeFrame s =
     (case free_list s of
        frame_id # rest \<Rightarrow> Inr (frame_id, s\<lparr>free_list := rest\<rparr>)
      | [] \<Rightarrow>
          (case Evict (replacer s) of
             Inl e \<Rightarrow> Inl e
           | Inr (None, r) \<Rightarrow> Inl Logic_error
           | Inr (Some frame_id, r) \<Rightarrow>
               let s1 = s\<lparr>replacer := r\<rparr>
               in (case page_at s1 frame_id of
                     Inl e \<Rightarrow> Inl e
                   | Inr page \<Rightarrow>
                       (case (if is_dirty page then FlushPage s1 (page_id page)
                              else Inr (True, s1)) of
                          Inl e \<Rightarrow> Inl e
                        | Inr (_, s2) \<Rightarrow>
                            Inr (frame_id,
                                 s2\<lparr>page_table := (page_table s2)(page_id page := None)\<rparr>)))))"

text \<open>
  Modelled from the spec: \<^verbatim>\<open>InitNewPage\<close> zeroes the frame's memory, sets its page
  id, clears the dirty flag and installs the page in the page table; the pin that makes
  the count 1 is taken by \<^verbatim>\<open>Pinpage\<close>, which the callers run next.
\<close>

definition InitNewPage :: "BufferPoolManager \<Rightarrow> page_id \<Rightarrow> frame_id \<Rightarrow> error + BufferPoolManager" where
  "InitNewPage s pid frame_id =
     (case page_at s frame_id of
        Inl e \<Rightarrow> Inl e
      | Inr page \<Rightarrow>
          Inr ((set_page s frame_id
                  (page\<lparr>data := zeroed, page_id := pid, pin_count := 0, is_dirty := False\<rparr>))
                 \<lparr>page_table := (page_table s)(pid \<mapsto> frame_id)\<rparr>))"

text \<open>
  Modelled from the spec: \<^verbatim>\<open>Pinpage\<close> increments the pin count of the page's frame,
  records an access in the replacer and marks the frame non-evictable.
\<close>

definition Pinpage :: "BufferPoolManager \<Rightarrow> page_id \<Rightarrow> error + BufferPoolManager" where
  "Pinpage s pid =
     (case page_table s pid of
        None \<Rightarrow> Inl Undefined_behaviour
      | Some frame_id \<Rightarrow>
          (case page_at s frame_id of
             Inl e \<Rightarrow> Inl e
           | Inr page \<Rightarrow>
               if pin_count page \<ge> 2 ^ 31 - 1 then Inl Undefined_behaviour
               else
                 (case RecordAccess (replacer s) frame_id of
                    Inl e \<Rightarrow> Inl e
                  | Inr r1 \<Rightarrow>
                      (case SetEvictable r1 frame_id False of
                         Inl e \<Rightarrow> Inl e
                       | Inr r2 \<Rightarrow>
                           Inr (set_page (s\<lparr>replacer := r2\<rparr>) frame_id
                                  (page\<lparr>pin_count := pin_count page + 1\<rparr>))))))"

text \<open>
  \<^verbatim>\<open>NewPage\<close> returns a pointer to the frame, or null, and writes the page id through
  its argument; the model returns the frame's index as an option, and the page id.
\<close>

definition NewPage :: "BufferPoolManager \<Rightarrow> error + (frame_id option \<times> page_id \<times> BufferPoolManager)" where
  "NewPage s =
     (if free_list s = [] \<and> Size (replacer s) = 0 then Inr (None, INVALID, s)
      else
        (case GetFreeFrame s of
           Inl e \<Rightarrow> Inl e
         | Inr (frame_id, s1) \<Rightarrow>
             (case AllocatePage s1 of
                (pid, s2) \<Rightarrow>
                  (case InitNewPage s2 pid frame_id of
                     Inl e \<Rightarrow> Inl e
                   | Inr s3 \<Rightarrow>
                       (case Pinpage s3 pid of
                          Inl e \<Rightarrow> Inl e
                        | Inr s4 \<Rightarrow> Inr (Some frame_id, pid, s4))))))"

definition FetchPage :: "BufferPoolManager \<Rightarrow> page_id \<Rightarrow> error + (frame_id option \<times> BufferPoolManager)" where
  "FetchPage s pid =
     (case page_table s pid of
        Some _ \<Rightarrow>
          (case Pinpage s pid of
             Inl e \<Rightarrow> Inl e
           | Inr s1 \<Rightarrow>
               (case page_table s1 pid of
                  Some frame_id \<Rightarrow> Inr (Some frame_id, s1)
                | None \<Rightarrow> Inr (Some 0, s1\<lparr>page_table := (page_table s1)(pid \<mapsto> 0)\<rparr>)))
      | None \<Rightarrow>
          if free_list s = [] \<and> Size (replacer s) = 0 then Inr (None, s)
          else
            (case GetFreeFrame s of
               Inl e \<Rightarrow> Inl e
             | Inr (frame_id, s1) \<Rightarrow>
                 (case InitNewPage s1 pid frame_id of
                    Inl e \<Rightarrow> Inl e
                  | Inr s2 \<Rightarrow>
                      (case Pinpage s2 pid of
                         Inl e \<Rightarrow> Inl e
                       | Inr s3 \<Rightarrow>
                           (case page_at s3 frame_id of
                              Inl e \<Rightarrow> Inl e
                            | Inr page \<Rightarrow>
                                (case ReadPage (disk_manager s3) pid of
                                   (bytes, dm) \<Rightarrow>
                                     Inr (Some frame_id,
                                          set_page (s3\<lparr>disk_manager := dm\<rparr>) frame_id
                                            (page\<lparr>data := bytes\<rparr>))))))))"

text \<open>Sequences of calls on one manager; the run stops at the first call that fails.\<close>

datatype bpm_op =
    Op_NewPage
  | Op_FetchPage page_id
  | Op_UnpinPage page_id bool
  | Op_FlushPage page_id
  | Op_DeletePage page_id

fun apply_bpm_op :: "BufferPoolManager \<Rightarrow> bpm_op \<Rightarrow> error + BufferPoolManager" where
  "apply_bpm_op s Op_NewPage = (case NewPage s of Inl e \<Rightarrow> Inl e | Inr (_, _, s') \<Rightarrow> Inr s')"
| "apply_bpm_op s (Op_FetchPage pid) = (case FetchPage s pid of Inl e \<Rightarrow> Inl e | Inr (_, s') \<Rightarrow> Inr s')"
| "apply_bpm_op s (Op_UnpinPage pid dirty) =
     (case UnpinPage s pid dirty of Inl e \<Rightarrow> Inl e | Inr (_, s') \<Rightarrow> Inr s')"
| "apply_bpm_op s (Op_FlushPage pid) = (case FlushPage s pid of Inl e \<Rightarrow> Inl e | Inr (_, s') \<Rightarrow> Inr s')"
| "apply_bpm_op s (Op_DeletePage pid) = (case DeletePage s pid of Inl e \<Rightarrow> Inl e | Inr (_, s') \<Rightarrow> Inr s')"

fun run_bpm_ops :: "BufferPoolManager \<Rightarrow> bpm_op list \<Rightarrow> error + BufferPoolManager" where
  "run_bpm_ops s [] = Inr s"
| "run_bpm_ops s (x # xs) = (case apply_bpm_op s x of Inl e \<Rightarrow> Inl e | Inr s' \<Rightarrow> run_bpm_ops s' xs)"

section \<open>Notions and sample states used in the statements\<close>

text \<open>A page is resident in a frame: the page table maps it there, and the frame exists.\<close>

definition resident :: "BufferPoolManager \<Rightarrow> page_id \<Rightarrow> frame_id \<Rightarrow> Page \<Rightarrow> bool" where
  "resident s pid frame_id page \<longleftrightarrow>
     page_table s pid = Some frame_id \<and> page_at s frame_id = Inr page"

text \<open>
  Sample states of a manager with one frame and \<open>K = 2\<close> over a zeroed disk: after
  \<^verbatim>\<open>NewPage\<close> (page 0 pinned once), after \<^verbatim>\<open>UnpinPage(0, true)\<close> on that, and after
  \<^verbatim>\<open>DeletePage(0)\<close> on that.
\<close>

definition disk0 :: DiskManager where
  "disk0 = \<lparr>disk_pages = (\<lambda>_. zeroed), disk_log = []\<rparr>"

definition bpm_pinned :: BufferPoolManager where
  "bpm_pinned =
     \<lparr>pool_size = 1,
      pages = [\<lparr>data = zeroed, page_id = 0, pin_count = 1, is_dirty = False\<rparr>],
      replacer =
        \<lparr>node_store = [0 \<mapsto> 0],
         heap = [0 \<mapsto> \<lparr>history = [1], fid = 0, is_evictable = False\<rparr>],
         next_addr = 1, less_k = [0], more_k = [], current_timestamp = 1, curr_size = 0,
         replacer_size = 1, replacer_k = 2\<rparr>,
      free_list = [], page_table = [0 \<mapsto> 0], next_page_id = 1, disk_manager = disk0\<rparr>"

definition bpm_unpinned :: BufferPoolManager where
  "bpm_unpinned =
     \<lparr>pool_size = 1,
      pages = [\<lparr>data = zeroed, page_id = 0, pin_count = 0, is_dirty = True\<rparr>],
      replacer =
        \<lparr>node_store = [0 \<mapsto> 0],
         heap = [0 \<mapsto> \<lparr>history = [1], fid = 0, is_evictable = True\<rparr>],
         next_addr = 1, less_k = [0], more_k = [], current_timestamp = 1, curr_size = 1,
         replacer_size = 1, replacer_k = 2\<rparr>,
      free_list = [], page_table = [0 \<mapsto> 0], next_page_id = 1, disk_manager = disk0\<rparr>"

definition bpm_deleted :: BufferPoolManager where
  "bpm_deleted =
     \<lparr>pool_size = 1,
      pages = [empty_page],
      replacer =
        \<lparr>node_store = Map.empty, heap = Map.empty,
         next_addr = 1, less_k = [], more_k = [], current_timestamp = 1, curr_size = 1,
         replacer_size = 1, replacer_k = 2\<rparr>,
      free_list = [0], page_table = Map.empty, next_page_id = 1,
      disk_manager = \<lparr>disk_pages = (\<lambda>_. zeroed), disk_log = [Ev_DeallocatePage 0]\<rparr>\<rparr>"

text \<open>
  The state \<open>bpm_unpinned\<close> after the caller has written a byte into the page through
  the pointer that \<^verbatim>\<open>NewPage\<close> returned: the frame's memory differs from what is on disk.
\<close>

definition scribbled :: page_data where
  "scribbled = zeroed[0 := 1]"

definition bpm_scribbled :: BufferPoolManager where
  "bpm_scribbled =
     bpm_unpinned\<lparr>pages := [\<lparr>data = scribbled, page_id = 0, pin_count = 0, is_dirty = True\<rparr>]\<rparr>"

text \<open>
  The invariant of the replacer. \<open>front_ts\<close> is \<^verbatim>\<open>history_.front()\<close>: for a node with
  fewer than \<open>K\<close> accesses the timestamp of its first access, which is when it entered the
  cold pool; for a node that holds \<open>K\<close> timestamps the timestamp of its \<open>K\<close>-th most
  recent access.
\<close>

definition front_ts :: "LRUKNode \<Rightarrow> nat" where
  "front_ts node = (case history node of [] \<Rightarrow> 0 | t # _ \<Rightarrow> t)"

definition front_at :: "(addr \<rightharpoonup> LRUKNode) \<Rightarrow> addr \<Rightarrow> nat" where
  "front_at h a = (case h a of None \<Rightarrow> 0 | Some node \<Rightarrow> front_ts node)"

definition store_ok :: "LRUKReplacer \<Rightarrow> bool" where
  "store_ok s \<longleftrightarrow>
     (\<forall>f a. node_store s f = Some a \<longrightarrow> (\<exists>node. heap s a = Some node \<and> fid node = f)) \<and>
     (\<forall>a node. heap s a = Some node \<longrightarrow> node_store s (fid node) = Some a \<and> a < next_addr s)"

definition pools_ok :: "LRUKReplacer \<Rightarrow> bool" where
  "pools_ok s \<longleftrightarrow>
     (\<forall>a. a \<in> set (less_k s) \<longleftrightarrow>
          (\<exists>node. heap s a = Some node \<and> length (history node) < replacer_k s)) \<and>
     (\<forall>a. a \<in> set (more_k s) \<longleftrightarrow>
          (\<exists>node. heap s a = Some node \<and> \<not> length (history node) < replacer_k s)) \<and>
     distinct (less_k s) \<and> distinct (more_k s)"

definition hist_ok :: "LRUKReplacer \<Rightarrow> bool" where
  "hist_ok s \<longleftrightarrow>
     (\<forall>a node. heap s a = Some node \<longrightarrow>
        history node \<noteq> [] \<and> length (history node) \<le> replacer_k s \<and>
        sorted_wrt (<) (history node) \<and>
        (\<forall>t \<in> set (history node). t \<le> current_timestamp s))"

definition order_ok :: "LRUKReplacer \<Rightarrow> bool" where
  "order_ok s \<longleftrightarrow>
     sorted_wrt (\<lambda>a b. front_at (heap s) a \<le> front_at (heap s) b) (more_k s) \<and>
     sorted_wrt (\<lambda>a b. front_at (heap s) a < front_at (heap s) b) (less_k s)"

definition replacer_inv :: "LRUKReplacer \<Rightarrow> bool" where
  "replacer_inv s \<longleftrightarrow> 2 \<le> replacer_k s \<and> store_ok s \<and> pools_ok s \<and> hist_ok s \<and> order_ok s"

text \<open>
  The words of the spec for \<^verbatim>\<open>Evict\<close>: a node of a pool that may be evicted, and the
  replacer after the chosen node has left its pool and the tracking map, with
  \<^verbatim>\<open>curr_size_\<close> decremented.
\<close>

definition evictable_in :: "LRUKReplacer \<Rightarrow> addr list \<Rightarrow> addr \<Rightarrow> LRUKNode \<Rightarrow> bool" where
  "evictable_in s pool a node \<longleftrightarrow> a \<in> set pool \<and> heap s a = Some node \<and> is_evictable node"

definition untracked :: "LRUKReplacer \<Rightarrow> addr \<Rightarrow> LRUKNode \<Rightarrow> LRUKReplacer" where
  "untracked s a node =
     s\<lparr>less_k := removeAll a (less_k s), more_k := removeAll a (more_k s),
       node_store := (node_store s)(fid node := None), heap := (heap s)(a := None),
       curr_size := curr_size s - 1\<rparr>"

text \<open>
  A sample run with \<open>K = 2\<close>: accesses to frames 0, 1, 2, 3, 0, 1, 2, then all four frames
  marked evictable; and the state it ends in.
\<close>

definition sample_ops :: "replacer_op list" where
  "sample_ops =
     [Op_RecordAccess 0, Op_RecordAccess 1, Op_RecordAccess 2, Op_RecordAccess 3,
      Op_RecordAccess 0, Op_RecordAccess 1, Op_RecordAccess 2,
      Op_SetEvictable 0 True, Op_SetEvictable 1 True, Op_SetEvictable 2 True,
      Op_SetEvictable 3 True]"

definition sample_replacer :: LRUKReplacer where
  "sample_replacer =
     \<lparr>node_store = [0 \<mapsto> 0, 1 \<mapsto> 1, 2 \<mapsto> 2, 3 \<mapsto> 3],
      heap = [0 \<mapsto> \<lparr>history = [1, 5], fid = 0, is_evictable = True\<rparr>,
              1 \<mapsto> \<lparr>history = [2, 6], fid = 1, is_evictable = True\<rparr>,
              2 \<mapsto> \<lparr>history = [3, 7], fid = 2, is_evictable = True\<rparr>,
              3 \<mapsto> \<lparr>history = [4], fid = 3, is_evictable = True\<rparr>],
      next_addr = 4, less_k = [3], more_k = [0, 1, 2], current_timestamp = 7, curr_size = 4,
      replacer_size = 7, replacer_k = 2\<rparr>"

text \<open>
  The invariant of the manager. \<open>flag_of\<close> is the evictable flag of a frame's node, if the
  frame is tracked; \<open>touches_only r f r'\<close> says that a call on frame \<open>f\<close> left the flags of
  all other frames alone. In every state the manager reaches, frame ids are inside the frame
  array, pin counts are not negative, and a frame whose pin count is zero is untracked or
  evictable. The set \<open>X\<close> holds the frame that \<^verbatim>\<open>InitNewPage\<close> has reset and
  \<^verbatim>\<open>Pinpage\<close> has not pinned yet.
\<close>

definition flag_of :: "LRUKReplacer \<Rightarrow> frame_id \<Rightarrow> bool option" where
  "flag_of r f = (case node_store r f of None \<Rightarrow> None | Some a \<Rightarrow> map_option is_evictable (heap r a))"

definition touches_only :: "LRUKReplacer \<Rightarrow> frame_id \<Rightarrow> LRUKReplacer \<Rightarrow> bool" where
  "touches_only r f r' \<longleftrightarrow>
     store_ok r' \<and> replacer_size r' = replacer_size r \<and>
     (\<forall>g. g \<noteq> f \<longrightarrow> flag_of r' g = flag_of r g) \<and>
     (\<forall>a node. heap r' a = Some node \<longrightarrow>
        fid node = f \<or> (\<exists>n0. heap r a = Some n0 \<and> fid n0 = fid node))"

definition frame_ok :: "BufferPoolManager \<Rightarrow> frame_id \<Rightarrow> bool" where
  "frame_ok s f \<longleftrightarrow> 0 \<le> f \<and> nat f < pool_size s"

definition frames_ok :: "BufferPoolManager \<Rightarrow> bool" where
  "frames_ok s \<longleftrightarrow>
     length (pages s) = pool_size s \<and> replacer_size (replacer s) = pool_size s \<and>
     (\<forall>f \<in> set (free_list s). frame_ok s f) \<and>
     (\<forall>p f. page_table s p = Some f \<longrightarrow> frame_ok s f) \<and>
     (\<forall>a node. heap (replacer s) a = Some node \<longrightarrow> frame_ok s (fid node))"

definition pins_ok :: "frame_id set \<Rightarrow> BufferPoolManager \<Rightarrow> bool" where
  "pins_ok X s \<longleftrightarrow>
     (\<forall>f. frame_ok s f \<longrightarrow>
        0 \<le> pin_count (pages s ! nat f) \<and>
        (f \<notin> X \<and> pin_count (pages s ! nat f) = 0 \<longrightarrow> flag_of (replacer s) f \<noteq> Some False))"

definition bpm_inv_ex :: "frame_id set \<Rightarrow> BufferPoolManager \<Rightarrow> bool" where
  "bpm_inv_ex X s \<longleftrightarrow> store_ok (replacer s) \<and> frames_ok s \<and> pins_ok X s"

text \<open>
  The nodes that \<^verbatim>\<open>Size()\<close> is to count, and the calls other than \<^verbatim>\<open>Remove\<close>.
\<close>

definition evictable_nodes :: "LRUKReplacer \<Rightarrow> addr set" where
  "evictable_nodes s = {a. \<exists>node. heap s a = Some node \<and> is_evictable node}"

definition size_ok :: "LRUKReplacer \<Rightarrow> bool" where
  "size_ok s \<longleftrightarrow> curr_size s = of_nat (card (evictable_nodes s))"

fun is_Remove :: "replacer_op \<Rightarrow> bool" where
  "is_Remove (Op_Remove f) = True"
| "is_Remove _ = False"

section \<open>Evaluating the replacer\<close>

lemmas replacer_defs =
  LRUKReplacer_init_def RecordAccess_def SetEvictable_def Remove_def Evict_def
  reinsert_def size_t_of_def Size_def Let_def

text \<open>
  Claim C1. Every call of \<^verbatim>\<open>RecordAccess\<close>, \<^verbatim>\<open>SetEvictable\<close> and \<^verbatim>\<open>Remove\<close> with a
  frame id outside \<open>[0, pool_size)\<close> is to fail, the id \<open>pool_size\<close> itself included.
  The three guards compare with \<^verbatim>\<open>>\<close>: on a replacer of 7 frames the ids 8 and -1 are
  refused, but the id 7 is accepted by all three, and \<^verbatim>\<open>RecordAccess\<close> starts tracking it.
\<close>

theorem frame_id_pool_size_is_accepted:
  "RecordAccess (LRUKReplacer_init 7 2) 7 =
     Inr ((LRUKReplacer_init 7 2)
            \<lparr>node_store := [7 \<mapsto> 0],
             heap := [0 \<mapsto> \<lparr>history = [1], fid = 7, is_evictable = False\<rparr>],
             next_addr := 1, less_k := [0], current_timestamp := 1\<rparr>)
   \<and> SetEvictable (LRUKReplacer_init 7 2) 7 True = Inr (LRUKReplacer_init 7 2)
   \<and> Remove (LRUKReplacer_init 7 2) 7 = Inr (LRUKReplacer_init 7 2)
   \<and> RecordAccess (LRUKReplacer_init 7 2) 8 = Inl Unexpected_frame_id
   \<and> RecordAccess (LRUKReplacer_init 7 2) (- 1) = Inl Unexpected_frame_id"
  by (simp add: replacer_defs)

text \<open>
  Claim C2. \<^verbatim>\<open>curr_size_\<close>, the value of \<^verbatim>\<open>Size()\<close>, is to equal the number of tracked
  evictable nodes, and \<^verbatim>\<open>Remove\<close> of a tracked evictable frame is to decrease it by one.
  \<^verbatim>\<open>Remove\<close> never writes \<^verbatim>\<open>curr_size_\<close>: after one access to frame 0, marking it
  evictable and removing it, no node is tracked and \<^verbatim>\<open>Size()\<close> is still 1.
\<close>

theorem Remove_leaves_curr_size:
  "\<exists>s. run_ops (LRUKReplacer_init 7 2)
          [Op_RecordAccess 0, Op_SetEvictable 0 True, Op_Remove 0] = Inr s
     \<and> node_store s = Map.empty \<and> heap s = Map.empty \<and> Size s = 1"
  by (simp add: replacer_defs)

text \<open>
  Claim C3. For every \<open>K \<ge> 1\<close> each tracked frame is to be in exactly one of the two
  pools. With \<open>K = 1\<close> the first access puts the node into the cold pool and returns,
  and the second access inserts it into the warm pool without taking it out of the cold
  one: after two accesses the node of frame 0 is in both.
\<close>

theorem K1_node_in_both_pools:
  "\<exists>s a. run_ops (LRUKReplacer_init 7 1) [Op_RecordAccess 0, Op_RecordAccess 0] = Inr s
     \<and> node_store s 0 = Some a \<and> a \<in> set (less_k s) \<and> a \<in> set (more_k s)"
  by (simp add: replacer_defs)

text \<open>
  Claim C5. For every \<open>K \<ge> 1\<close>, \<open>K = 1\<close> included, \<^verbatim>\<open>RecordAccess\<close> is to move a frame
  to the warm pool exactly on its \<open>K\<close>-th access. With \<open>K = 1\<close> the first access is the
  \<open>K\<close>-th one, and it leaves the frame in the cold pool with the warm pool empty.
\<close>

theorem K1_first_access_stays_cold:
  "\<exists>s a. RecordAccess (LRUKReplacer_init 7 1) 0 = Inr s
     \<and> node_store s 0 = Some a \<and> heap s a = Some \<lparr>history = [1], fid = 0, is_evictable = False\<rparr>
     \<and> less_k s = [a] \<and> more_k s = []"
  by (simp add: replacer_defs)

section \<open>The replacer's invariant\<close>

text \<open>
  For \<open>K \<ge> 2\<close> every state reached from a fresh replacer keeps its store, its tracking map
  and its two pools consistent: each tracked node is in exactly one pool, the cold pool
  when it has fewer than \<open>K\<close> timestamps and the warm pool when it has \<open>K\<close>; no history
  is empty or longer than \<open>K\<close>; the warm pool ascends by \<open>front_ts\<close>, and the cold pool
  ascends strictly. The timestamp counter is a \<^verbatim>\<open>size_t\<close>; the runs considered are shorter
  than \<open>2 ^ 64\<close> calls, so it does not wrap.
\<close>

subsection \<open>The scans of the two pools\<close>

lemma front_at_upd_other: "b \<noteq> a \<Longrightarrow> front_at (h(a := x)) b = front_at h b"
  by (simp add: front_at_def)

lemma front_at_Some: "h a = Some node \<Longrightarrow> front_at h a = front_ts node"
  by (simp add: front_at_def)

lemma insert_more_k_Cons:
  assumes "insert_more_k h a kth (x # xs) = Inr r"
  obtains n t ts where "h x = Some n" "history n = t # ts" "kth < t" "r = a # x # xs"
  | n t ts r' where "h x = Some n" "history n = t # ts" "\<not> kth < t"
      "insert_more_k h a kth xs = Inr r'" "r = x # r'"
proof -
  from assms obtain n t ts where n: "h x = Some n" "history n = t # ts"
    by (auto split: option.splits list.splits)
  show thesis
  proof (cases "kth < t")
    case True
    with assms n have "r = a # x # xs" by simp
    with n True that(1) show thesis by blast
  next
    case False
    with assms n obtain r' where "insert_more_k h a kth xs = Inr r'" "r = x # r'"
      by (cases "insert_more_k h a kth xs") auto
    with n False that(2) show thesis by blast
  qed
qed

lemma insert_more_k_set:
  "insert_more_k h a kth xs = Inr r \<Longrightarrow> set r = insert a (set xs)"
proof (induction xs arbitrary: r)
  case Nil
  then show ?case by auto
next
  case (Cons x xs)
  from Cons.prems show ?case
  proof (cases rule: insert_more_k_Cons)
    case (1 n t ts)
    then show ?thesis by simp
  next
    case (2 n t ts r')
    with Cons.IH [of r'] show ?thesis by auto
  qed
qed

lemma insert_more_k_distinct:
  "insert_more_k h a kth xs = Inr r \<Longrightarrow> distinct xs \<Longrightarrow> a \<notin> set xs \<Longrightarrow> distinct r"
proof (induction xs arbitrary: r)
  case Nil
  then show ?case by auto
next
  case (Cons x xs)
  from Cons.prems(1) show ?case
  proof (cases rule: insert_more_k_Cons)
    case (1 n t ts)
    with Cons.prems show ?thesis by simp
  next
    case (2 n t ts r')
    with Cons.IH [of r'] Cons.prems insert_more_k_set [of h a kth xs r'] show ?thesis by auto
  qed
qed

lemma insert_more_k_sorted:
  assumes "insert_more_k h a kth xs = Inr r"
    and "sorted_wrt (\<lambda>x y. front_at h x \<le> front_at h y) xs"
    and "front_at h a = kth"
  shows "sorted_wrt (\<lambda>x y. front_at h x \<le> front_at h y) r"
  using assms
proof (induction xs arbitrary: r)
  case Nil
  then show ?case by auto
next
  case (Cons x xs)
  from Cons.prems(1) show ?case
  proof (cases rule: insert_more_k_Cons)
    case (1 n t ts)
    then have fx: "front_at h x = t"
      by (simp add: front_at_def front_ts_def)
    have "\<forall>y \<in> set (x # xs). front_at h a \<le> front_at h y"
      using Cons.prems(2,3) 1(3) fx by (auto dest: le_trans)
    with Cons.prems(2) 1(4) show ?thesis by simp
  next
    case (2 n t ts r')
    then have fx: "front_at h x = t"
      by (simp add: front_at_def front_ts_def)
    from Cons.prems(2) have "sorted_wrt (\<lambda>x y. front_at h x \<le> front_at h y) xs" by simp
    with Cons.IH 2(4) Cons.prems(3) have s: "sorted_wrt (\<lambda>x y. front_at h x \<le> front_at h y) r'"
      by blast
    have "set r' = insert a (set xs)" using 2(4) by (rule insert_more_k_set)
    moreover have "front_at h x \<le> front_at h a" using 2(3) fx Cons.prems(3) by simp
    ultimately have "\<forall>y \<in> set r'. front_at h x \<le> front_at h y"
      using Cons.prems(2) by auto
    with s 2(5) show ?thesis by simp
  qed
qed

lemma find_evictable_total:
  "\<forall>a \<in> set xs. h a \<noteq> None \<Longrightarrow> \<exists>r. find_evictable h xs = Inr r"
  by (induction xs) auto

lemma find_evictable_None:
  "find_evictable h xs = Inr None \<Longrightarrow> a \<in> set xs \<Longrightarrow> h a = Some node \<Longrightarrow> \<not> is_evictable node"
  by (induction xs) (auto split: option.splits if_splits)

lemma find_evictable_Some:
  "find_evictable h xs = Inr (Some (a, v)) \<Longrightarrow>
   \<exists>ys zs. xs = ys @ a # zs \<and> h a = Some v \<and> is_evictable v \<and>
           (\<forall>b \<in> set ys. \<forall>node. h b = Some node \<longrightarrow> \<not> is_evictable node)"
proof (induction xs)
  case Nil
  then show ?case by simp
next
  case (Cons x xs)
  show ?case
  proof (cases "x = a \<and> h a = Some v \<and> is_evictable v")
    case True
    then have "x # xs = [] @ a # xs \<and> h a = Some v \<and> is_evictable v" by simp
    then show ?thesis by fastforce
  next
    case False
    with Cons.prems have rest: "find_evictable h xs = Inr (Some (a, v))"
      and nx: "\<forall>node. h x = Some node \<longrightarrow> \<not> is_evictable node"
      by (auto split: option.splits if_splits)
    from Cons.IH [OF rest] obtain ys zs where
      "xs = ys @ a # zs" "h a = Some v" "is_evictable v"
      "\<forall>b \<in> set ys. \<forall>node. h b = Some node \<longrightarrow> \<not> is_evictable node"
      by blast
    with nx have "x # xs = (x # ys) @ a # zs \<and> h a = Some v \<and> is_evictable v \<and>
           (\<forall>b \<in> set (x # ys). \<forall>node. h b = Some node \<longrightarrow> \<not> is_evictable node)"
      by simp
    then show ?thesis by blast
  qed
qed

subsection \<open>What a successful call changes\<close>

lemma SetEvictable_Inr:
  "SetEvictable s f b = Inr s' \<Longrightarrow>
   s' = s \<or> (\<exists>a node c. node_store s f = Some a \<and> heap s a = Some node \<and>
      s' = s\<lparr>heap := (heap s)(a \<mapsto> node\<lparr>is_evictable := b\<rparr>), curr_size := c\<rparr>)"
  unfolding SetEvictable_def
  by (simp split: if_splits option.splits) blast+

lemma Remove_Inr:
  "Remove s f = Inr s' \<Longrightarrow>
   s' = s \<or>
   (\<exists>a node. node_store s f = Some a \<and> heap s a = Some node \<and> is_evictable node \<and>
      (if length (history node) < replacer_k s
       then s' = s\<lparr>less_k := removeAll a (less_k s), heap := (heap s)(a := None),
                    node_store := (node_store s)(f := None)\<rparr>
       else s' = s\<lparr>more_k := removeAll a (more_k s), heap := (heap s)(a := None),
                    node_store := (node_store s)(f := None)\<rparr>))"
  unfolding Remove_def Let_def
  by (auto split: if_splits option.splits)

lemma Evict_Inr:
  "Evict s = Inr (res, s') \<Longrightarrow>
   (res = None \<and> s' = s \<and> find_evictable (heap s) (less_k s) = Inr None \<and>
      find_evictable (heap s) (more_k s) = Inr None) \<or>
   (\<exists>a node. res = Some (fid node) \<and>
      find_evictable (heap s) (less_k s) = Inr (Some (a, node)) \<and>
      s' = s\<lparr>less_k := removeAll a (less_k s),
               node_store := (node_store s)(fid node := None),
               curr_size := curr_size s - 1, heap := (heap s)(a := None)\<rparr>) \<or>
   (\<exists>a node. res = Some (fid node) \<and>
      find_evictable (heap s) (less_k s) = Inr None \<and>
      find_evictable (heap s) (more_k s) = Inr (Some (a, node)) \<and>
      s' = s\<lparr>more_k := removeAll a (more_k s),
               node_store := (node_store s)(fid node := None),
               curr_size := curr_size s - 1, heap := (heap s)(a := None)\<rparr>)"
  unfolding Evict_def
  by (auto split: sum.splits option.splits prod.splits)

lemma reinsert_Inr:
  "reinsert s0 a nd = Inr s' \<Longrightarrow>
   \<exists>r. history nd \<noteq> [] \<and>
       insert_more_k ((heap s0)(a \<mapsto> nd)) a (front_ts nd) (more_k s0) = Inr r \<and>
       s' = s0\<lparr>heap := (heap s0)(a \<mapsto> nd), more_k := r\<rparr>"
  unfolding reinsert_def front_ts_def
  by (auto split: list.splits sum.splits)

lemma RecordAccess_cases:
  assumes "RecordAccess s f = Inr s'" and "ts = (current_timestamp s + 1) mod 2 ^ 64"
  obtains (new) "node_store s f = None"
      "s' = s\<lparr>current_timestamp := ts,
               heap := (heap s)(next_addr s \<mapsto>
                         \<lparr>history = [ts], fid = f, is_evictable = False\<rparr>),
               next_addr := Suc (next_addr s),
               node_store := (node_store s)(f \<mapsto> next_addr s),
               less_k := less_k s @ [next_addr s]\<rparr>"
  | (cold) a n0 where "node_store s f = Some a" "heap s a = Some n0"
      "Suc (length (history n0)) < replacer_k s"
      "s' = s\<lparr>current_timestamp := ts,
               heap := (heap s)(a \<mapsto> n0\<lparr>history := history n0 @ [ts]\<rparr>)\<rparr>"
  | (to_warm) a n0 nd r where "node_store s f = Some a" "heap s a = Some n0"
      "Suc (length (history n0)) = replacer_k s"
      "nd = n0\<lparr>history := history n0 @ [ts]\<rparr>"
      "insert_more_k ((heap s)(a \<mapsto> nd)) a (front_ts nd) (more_k s) = Inr r"
      "s' = s\<lparr>current_timestamp := ts,
               less_k := removeAll a (less_k s),
               heap := (heap s)(a \<mapsto> nd), more_k := r\<rparr>"
  | (warm) a n0 nd r where "node_store s f = Some a" "heap s a = Some n0"
      "replacer_k s < Suc (length (history n0))"
      "nd = n0\<lparr>history := tl (history n0 @ [ts])\<rparr>"
      "history nd \<noteq> []"
      "insert_more_k ((heap s)(a \<mapsto> nd)) a (front_ts nd) (removeAll a (more_k s)) = Inr r"
      "s' = s\<lparr>current_timestamp := ts,
               more_k := r, heap := (heap s)(a \<mapsto> nd)\<rparr>"
proof -
  from assms(2) have ts: "(current_timestamp s + 1) mod 2 ^ 64 = ts" by simp
  from assms(1) have rng: "\<not> replacer_size s < size_t_of f"
    by (auto simp: RecordAccess_def split: if_splits)
  show thesis
  proof (cases "node_store s f")
    case None
    with assms(1) rng ts have
      "s' = s\<lparr>current_timestamp := ts,
               heap := (heap s)(next_addr s \<mapsto> \<lparr>history = [ts], fid = f, is_evictable = False\<rparr>),
               next_addr := Suc (next_addr s),
               node_store := (node_store s)(f \<mapsto> next_addr s),
               less_k := less_k s @ [next_addr s]\<rparr>"
      by (simp add: RecordAccess_def Let_def)
    with None new show thesis by blast
  next
    case (Some a)
    with assms(1) rng ts obtain n0 where n0: "heap s a = Some n0"
      by (cases "heap s a") (auto simp: RecordAccess_def Let_def)
    let ?node = "n0\<lparr>history := history n0 @ [ts]\<rparr>"
    consider (c) "Suc (length (history n0)) < replacer_k s"
      | (e) "Suc (length (history n0)) = replacer_k s"
      | (w) "replacer_k s < Suc (length (history n0))"
      by linarith
    then show thesis
    proof cases
      case c
      with assms(1) rng ts Some n0 have
        "s' = s\<lparr>current_timestamp := ts, heap := (heap s)(a \<mapsto> ?node)\<rparr>"
        by (simp add: RecordAccess_def Let_def)
      with Some n0 c cold show thesis by blast
    next
      case e
      with assms(1) rng ts Some n0 have
        "reinsert (s\<lparr>current_timestamp := ts, less_k := removeAll a (less_k s)\<rparr>) a ?node = Inr s'"
        by (simp add: RecordAccess_def Let_def)
      from reinsert_Inr [OF this] obtain r where
        "insert_more_k ((heap s)(a \<mapsto> ?node)) a (front_ts ?node) (more_k s) = Inr r"
        "s' = s\<lparr>current_timestamp := ts, less_k := removeAll a (less_k s),
                 heap := (heap s)(a \<mapsto> ?node), more_k := r\<rparr>"
        by auto
      with Some n0 e to_warm show thesis by blast
    next
      case w
      let ?nd = "n0\<lparr>history := tl (history n0 @ [ts])\<rparr>"
      from w assms(1) rng ts Some n0 have
        "reinsert (s\<lparr>current_timestamp := ts, more_k := removeAll a (more_k s)\<rparr>) a ?nd = Inr s'"
        by (simp add: RecordAccess_def Let_def)
      from reinsert_Inr [OF this] obtain r where "history ?nd \<noteq> []"
        "insert_more_k ((heap s)(a \<mapsto> ?nd)) a (front_ts ?nd) (removeAll a (more_k s)) = Inr r"
        "s' = s\<lparr>current_timestamp := ts, more_k := r, heap := (heap s)(a \<mapsto> ?nd)\<rparr>"
        by auto
      with Some n0 w warm show thesis by blast
    qed
  qed
qed

subsection \<open>The tracking map and the store\<close>

lemma store_okI:
  assumes "\<And>f a. node_store s f = Some a \<Longrightarrow> \<exists>node. heap s a = Some node \<and> fid node = f"
    and "\<And>a node. heap s a = Some node \<Longrightarrow> node_store s (fid node) = Some a \<and> a < next_addr s"
  shows "store_ok s"
  using assms unfolding store_ok_def by blast

lemma store_ok_tracked:
  "store_ok s \<Longrightarrow> node_store s f = Some a \<Longrightarrow> \<exists>node. heap s a = Some node \<and> fid node = f"
  unfolding store_ok_def by blast

lemma store_ok_node:
  "store_ok s \<Longrightarrow> heap s a = Some node \<Longrightarrow> node_store s (fid node) = Some a"
  unfolding store_ok_def by blast

lemma store_ok_bound:
  "store_ok s \<Longrightarrow> heap s a = Some node \<Longrightarrow> a < next_addr s"
  unfolding store_ok_def by blast

lemma store_ok_fresh: "store_ok s \<Longrightarrow> heap s (next_addr s) = None"
  using store_ok_bound [of s "next_addr s"] by (cases "heap s (next_addr s)") auto

lemma store_ok_replace:
  assumes "store_ok s" and "heap s a = Some node" and "fid nd = fid node"
    and "heap s' = (heap s)(a \<mapsto> nd)" and "node_store s' = node_store s"
    and "next_addr s' = next_addr s"
  shows "store_ok s'"
proof (rule store_okI)
  fix f b assume "node_store s' f = Some b"
  with assms(5) have "node_store s f = Some b" by simp
  from store_ok_tracked [OF assms(1) this] obtain n where "heap s b = Some n" "fid n = f"
    by blast
  with assms(2,3,4) show "\<exists>node. heap s' b = Some node \<and> fid node = f"
    by auto
next
  fix b n assume "heap s' b = Some n"
  with assms(2,3,4) obtain n0 where n0: "heap s b = Some n0" "fid n0 = fid n"
    by (cases "b = a") auto
  from store_ok_node [OF assms(1) n0(1)] store_ok_bound [OF assms(1) n0(1)] n0(2) assms(5,6)
  show "node_store s' (fid n) = Some b \<and> b < next_addr s'"
    by simp
qed

lemma store_ok_untrack:
  assumes "store_ok s" and "node_store s f = Some a"
    and "heap s' = (heap s)(a := None)" and "node_store s' = (node_store s)(f := None)"
    and "next_addr s' = next_addr s"
  shows "store_ok s'"
proof (rule store_okI)
  fix g b assume "node_store s' g = Some b"
  with assms(4) have g: "g \<noteq> f" "node_store s g = Some b"
    by (auto split: if_splits)
  from store_ok_tracked [OF assms(1) g(2)] obtain n where n: "heap s b = Some n" "fid n = g"
    by blast
  have "b \<noteq> a"
  proof
    assume "b = a"
    with store_ok_tracked [OF assms(1,2)] n have "fid n = f" by auto
    with n g show False by simp
  qed
  with n assms(3) show "\<exists>node. heap s' b = Some node \<and> fid node = g"
    by simp
next
  fix b n assume "heap s' b = Some n"
  with assms(3) have b: "b \<noteq> a" "heap s b = Some n"
    by (auto split: if_splits)
  from store_ok_node [OF assms(1) b(2)] store_ok_bound [OF assms(1) b(2)]
  have n: "node_store s (fid n) = Some b" "b < next_addr s" .
  with assms(2) b have "fid n \<noteq> f" by auto
  with n assms(4,5) show "node_store s' (fid n) = Some b \<and> b < next_addr s'"
    by simp
qed

lemma store_ok_new:
  assumes "store_ok s" and "node_store s f = None" and "fid nd = f"
    and "heap s' = (heap s)(next_addr s \<mapsto> nd)"
    and "node_store s' = (node_store s)(f \<mapsto> next_addr s)"
    and "next_addr s' = Suc (next_addr s)"
  shows "store_ok s'"
proof (rule store_okI)
  fix g b assume gb: "node_store s' g = Some b"
  show "\<exists>node. heap s' b = Some node \<and> fid node = g"
  proof (cases "g = f")
    case True
    with gb assms(3,4,5) show ?thesis by simp
  next
    case False
    with gb assms(5) have "node_store s g = Some b" by simp
    from store_ok_tracked [OF assms(1) this] obtain n where n: "heap s b = Some n" "fid n = g"
      by blast
    with store_ok_fresh [OF assms(1)] have "b \<noteq> next_addr s" by auto
    with n assms(4) show ?thesis by simp
  qed
next
  fix b n assume bn: "heap s' b = Some n"
  show "node_store s' (fid n) = Some b \<and> b < next_addr s'"
  proof (cases "b = next_addr s")
    case True
    with bn assms(3,4,5,6) show ?thesis by simp
  next
    case False
    with bn assms(4) have h: "heap s b = Some n" by simp
    from store_ok_node [OF assms(1) h] store_ok_bound [OF assms(1) h]
    have n: "node_store s (fid n) = Some b" "b < next_addr s" .
    with assms(2) have "fid n \<noteq> f" by auto
    with n assms(5,6) show ?thesis by simp
  qed
qed

subsection \<open>The two pools\<close>

lemma pools_ok_less_kD:
  "pools_ok s \<Longrightarrow> a \<in> set (less_k s) \<Longrightarrow>
   \<exists>node. heap s a = Some node \<and> length (history node) < replacer_k s"
  by (simp add: pools_ok_def)

lemma pools_ok_more_kD:
  "pools_ok s \<Longrightarrow> a \<in> set (more_k s) \<Longrightarrow>
   \<exists>node. heap s a = Some node \<and> \<not> length (history node) < replacer_k s"
  by (simp add: pools_ok_def)

lemma pools_ok_cold:
  "pools_ok s \<Longrightarrow> heap s a = Some node \<Longrightarrow> length (history node) < replacer_k s \<Longrightarrow>
   a \<in> set (less_k s) \<and> a \<notin> set (more_k s)"
  by (auto simp: pools_ok_def)

lemma pools_ok_warm:
  "pools_ok s \<Longrightarrow> heap s a = Some node \<Longrightarrow> \<not> length (history node) < replacer_k s \<Longrightarrow>
   a \<in> set (more_k s) \<and> a \<notin> set (less_k s)"
  by (auto simp: pools_ok_def)

lemma pools_ok_replace:
  assumes "pools_ok s" and "heap s a = Some node"
    and "length (history nd) < replacer_k s \<longleftrightarrow> length (history node) < replacer_k s"
    and "heap s' = (heap s)(a \<mapsto> nd)" and "less_k s' = less_k s" and "more_k s' = more_k s"
    and "replacer_k s' = replacer_k s"
  shows "pools_ok s'"
  unfolding pools_ok_def
proof (intro conjI allI)
  fix b
  show "b \<in> set (less_k s') \<longleftrightarrow>
        (\<exists>node. heap s' b = Some node \<and> length (history node) < replacer_k s')"
    using assms by (cases "b = a") (auto simp: pools_ok_def)
  show "b \<in> set (more_k s') \<longleftrightarrow>
        (\<exists>node. heap s' b = Some node \<and> \<not> length (history node) < replacer_k s')"
    using assms by (cases "b = a") (auto simp: pools_ok_def)
next
  show "distinct (less_k s')" "distinct (more_k s')"
    using assms by (simp_all add: pools_ok_def)
qed

lemma pools_ok_untrack:
  assumes "pools_ok s"
    and "heap s' = (heap s)(a := None)" and "less_k s' = removeAll a (less_k s)"
    and "more_k s' = removeAll a (more_k s)" and "replacer_k s' = replacer_k s"
  shows "pools_ok s'"
  unfolding pools_ok_def
proof (intro conjI allI)
  fix b
  show "b \<in> set (less_k s') \<longleftrightarrow>
        (\<exists>node. heap s' b = Some node \<and> length (history node) < replacer_k s')"
    using assms by (cases "b = a") (auto simp: pools_ok_def)
  show "b \<in> set (more_k s') \<longleftrightarrow>
        (\<exists>node. heap s' b = Some node \<and> \<not> length (history node) < replacer_k s')"
    using assms by (cases "b = a") (auto simp: pools_ok_def)
next
  show "distinct (less_k s')" "distinct (more_k s')"
    using assms by (simp_all add: pools_ok_def distinct_removeAll)
qed

lemma pools_ok_new:
  assumes "pools_ok s" and "heap s a = None" and "length (history nd) < replacer_k s"
    and "heap s' = (heap s)(a \<mapsto> nd)" and "less_k s' = less_k s @ [a]"
    and "more_k s' = more_k s" and "replacer_k s' = replacer_k s"
  shows "pools_ok s'"
  unfolding pools_ok_def
proof (intro conjI allI)
  fix b
  show "b \<in> set (less_k s') \<longleftrightarrow>
        (\<exists>node. heap s' b = Some node \<and> length (history node) < replacer_k s')"
    using assms by (cases "b = a") (auto simp: pools_ok_def)
  show "b \<in> set (more_k s') \<longleftrightarrow>
        (\<exists>node. heap s' b = Some node \<and> \<not> length (history node) < replacer_k s')"
    using assms by (cases "b = a") (auto simp: pools_ok_def)
next
  from assms(1,2) have "a \<notin> set (less_k s)"
    by (auto simp: pools_ok_def)
  with assms show "distinct (less_k s')" "distinct (more_k s')"
    by (simp_all add: pools_ok_def)
qed

lemma pools_ok_warm_insert:
  assumes "pools_ok s" and "\<not> length (history nd) < replacer_k s"
    and "heap s' = (heap s)(a \<mapsto> nd)" and "less_k s' = removeAll a (less_k s)"
    and "insert_more_k h a kth (removeAll a (more_k s)) = Inr (more_k s')"
    and "replacer_k s' = replacer_k s"
  shows "pools_ok s'"
  unfolding pools_ok_def
proof (intro conjI allI)
  have m: "set (more_k s') = insert a (set (more_k s) - {a})"
    using insert_more_k_set [OF assms(5)] by simp
  fix b
  show "b \<in> set (less_k s') \<longleftrightarrow>
        (\<exists>node. heap s' b = Some node \<and> length (history node) < replacer_k s')"
    using assms(1,2,3,4,6) by (cases "b = a") (auto simp: pools_ok_def)
  show "b \<in> set (more_k s') \<longleftrightarrow>
        (\<exists>node. heap s' b = Some node \<and> \<not> length (history node) < replacer_k s')"
    using assms(1,2,3,6) m by (cases "b = a") (auto simp: pools_ok_def)
next
  show "distinct (less_k s')"
    using assms(1,4) by (simp add: pools_ok_def distinct_removeAll)
  have "distinct (removeAll a (more_k s))" "a \<notin> set (removeAll a (more_k s))"
    using assms(1) by (simp_all add: pools_ok_def distinct_removeAll)
  with assms(5) show "distinct (more_k s')"
    by (rule insert_more_k_distinct)
qed

subsection \<open>The histories\<close>

lemma hist_ok_node:
  "hist_ok s \<Longrightarrow> heap s a = Some node \<Longrightarrow>
   history node \<noteq> [] \<and> length (history node) \<le> replacer_k s \<and>
   sorted_wrt (<) (history node) \<and> (\<forall>t \<in> set (history node). t \<le> current_timestamp s)"
  unfolding hist_ok_def by blast

lemma hist_ok_front:
  assumes "hist_ok s" and "heap s a = Some node"
  shows "front_at (heap s) a \<le> current_timestamp s"
proof -
  from hist_ok_node [OF assms] obtain t ts where "history node = t # ts" "t \<le> current_timestamp s"
    by (cases "history node") auto
  with assms(2) show ?thesis
    by (simp add: front_at_def front_ts_def)
qed

lemma hist_ok_update:
  assumes "hist_ok s"
    and "heap s' = (heap s)(a \<mapsto> nd)" and "current_timestamp s \<le> current_timestamp s'"
    and "replacer_k s' = replacer_k s"
    and "history nd \<noteq> []" and "length (history nd) \<le> replacer_k s"
    and "sorted_wrt (<) (history nd)" and "\<forall>t \<in> set (history nd). t \<le> current_timestamp s'"
  shows "hist_ok s'"
  unfolding hist_ok_def
proof (intro allI impI)
  fix b n assume bn: "heap s' b = Some n"
  show "history n \<noteq> [] \<and> length (history n) \<le> replacer_k s' \<and>
        sorted_wrt (<) (history n) \<and> (\<forall>t \<in> set (history n). t \<le> current_timestamp s')"
  proof (cases "b = a")
    case True
    with bn assms(2) have "n = nd" by simp
    with assms(4-8) show ?thesis by simp
  next
    case False
    with bn assms(2) have "heap s b = Some n" by simp
    from hist_ok_node [OF assms(1) this] assms(3,4) show ?thesis
      by (auto dest: le_trans)
  qed
qed

lemma hist_ok_untrack:
  assumes "hist_ok s"
    and "heap s' = (heap s)(a := None)" and "current_timestamp s' = current_timestamp s"
    and "replacer_k s' = replacer_k s"
  shows "hist_ok s'"
  unfolding hist_ok_def
proof (intro allI impI)
  fix b n assume "heap s' b = Some n"
  with assms(2) have "heap s b = Some n" by (auto split: if_splits)
  from hist_ok_node [OF assms(1) this] assms(3,4)
  show "history n \<noteq> [] \<and> length (history n) \<le> replacer_k s' \<and>
        sorted_wrt (<) (history n) \<and> (\<forall>t \<in> set (history n). t \<le> current_timestamp s')"
    by simp
qed

subsection \<open>The order of the pools\<close>

lemma front_at_replace_same:
  "h a = Some node \<Longrightarrow> front_ts nd = front_ts node \<Longrightarrow> front_at (h(a \<mapsto> nd)) = front_at h"
  by (rule ext) (simp add: front_at_def)

lemma front_ts_append: "history node \<noteq> [] \<Longrightarrow> front_ts (node\<lparr>history := history node @ ts\<rparr>) = front_ts node"
  by (cases "history node") (simp_all add: front_ts_def)

lemma front_ts_flag: "front_ts (node\<lparr>is_evictable := b\<rparr>) = front_ts node"
  by (simp add: front_ts_def)

lemma sorted_wrt_removeAll_upd:
  assumes "sorted_wrt (\<lambda>x y. R (front_at h x) (front_at h y)) xs"
  shows "sorted_wrt (\<lambda>x y. R (front_at (h(a := v)) x) (front_at (h(a := v)) y)) (removeAll a xs)"
proof -
  have "sorted_wrt (\<lambda>x y. R (front_at h x) (front_at h y)) (removeAll a xs)"
    using assms by (simp add: removeAll_filter_not_eq sorted_wrt_filter)
  then show ?thesis
    by (rule sorted_wrt_mono_rel [rotated]) (simp add: front_at_upd_other)
qed

lemma order_ok_same_fronts:
  assumes "order_ok s" and "front_at (heap s') = front_at (heap s)"
    and "less_k s' = less_k s" and "more_k s' = more_k s"
  shows "order_ok s'"
  using assms by (simp add: order_ok_def)

lemma order_ok_untrack:
  assumes "order_ok s"
    and "heap s' = (heap s)(a := None)" and "less_k s' = removeAll a (less_k s)"
    and "more_k s' = removeAll a (more_k s)"
  shows "order_ok s'"
  using assms sorted_wrt_removeAll_upd [of "(\<le>)" "heap s" "more_k s" a None]
    sorted_wrt_removeAll_upd [of "(<)" "heap s" "less_k s" a None]
  by (simp add: order_ok_def)

lemma order_ok_new:
  assumes "order_ok s" and "pools_ok s" and "hist_ok s" and "heap s a = None"
    and "heap s' = (heap s)(a \<mapsto> nd)" and "less_k s' = less_k s @ [a]"
    and "more_k s' = more_k s"
    and "current_timestamp s < front_ts nd"
  shows "order_ok s'"
proof -
  have other: "front_at (heap s') b = front_at (heap s) b" if "b \<in> set (less_k s) \<or> b \<in> set (more_k s)" for b
  proof -
    from that assms(2) have "heap s b \<noteq> None"
      by (auto dest: pools_ok_less_kD pools_ok_more_kD)
    with assms(4) have "b \<noteq> a" by auto
    with assms(5) show ?thesis by (simp add: front_at_upd_other)
  qed
  have new: "front_at (heap s') a = front_ts nd"
    using assms(5) by (simp add: front_at_def)
  have m: "sorted_wrt (\<lambda>x y. front_at (heap s') x \<le> front_at (heap s') y) (more_k s)"
    using assms(1) by (auto simp: order_ok_def other intro: sorted_wrt_mono_rel [rotated])
  have l: "sorted_wrt (\<lambda>x y. front_at (heap s') x < front_at (heap s') y) (less_k s)"
    using assms(1) by (auto simp: order_ok_def other intro: sorted_wrt_mono_rel [rotated])
  have "front_at (heap s') b < front_at (heap s') a" if "b \<in> set (less_k s)" for b
  proof -
    from that assms(2) obtain n where "heap s b = Some n"
      by (auto dest: pools_ok_less_kD)
    from hist_ok_front [OF assms(3) this] other [of b] that new assms(8) show ?thesis
      by simp
  qed
  with m l assms(6,7) show ?thesis
    by (simp add: order_ok_def sorted_wrt_append)
qed

lemma order_ok_warm_insert:
  assumes "order_ok s"
    and "heap s' = (heap s)(a \<mapsto> nd)" and "less_k s' = removeAll a (less_k s)"
    and "insert_more_k (heap s') a (front_ts nd) (removeAll a (more_k s)) = Inr (more_k s')"
  shows "order_ok s'"
proof -
  have m: "sorted_wrt (\<lambda>x y. front_at (heap s') x \<le> front_at (heap s') y) (removeAll a (more_k s))"
    using assms(1,2) sorted_wrt_removeAll_upd [of "(\<le>)" "heap s" "more_k s" a "Some nd"]
    by (simp add: order_ok_def)
  have l: "sorted_wrt (\<lambda>x y. front_at (heap s') x < front_at (heap s') y) (removeAll a (less_k s))"
    using assms(1,2) sorted_wrt_removeAll_upd [of "(<)" "heap s" "less_k s" a "Some nd"]
    by (simp add: order_ok_def)
  have "front_at (heap s') a = front_ts nd"
    using assms(2) by (simp add: front_at_def)
  from insert_more_k_sorted [OF assms(4) m this] l assms(3) show ?thesis
    by (simp add: order_ok_def)
qed

subsection \<open>Every call keeps the invariant\<close>

lemma replacer_inv_init:
  "2 \<le> k \<Longrightarrow> replacer_inv (LRUKReplacer_init n k)"
  by (simp add: replacer_inv_def store_ok_def pools_ok_def hist_ok_def order_ok_def
      LRUKReplacer_init_def)

lemma replacer_inv_SetEvictable:
  assumes "replacer_inv s" and "SetEvictable s f b = Inr s'"
  shows "replacer_inv s'"
proof -
  from SetEvictable_Inr [OF assms(2)] show ?thesis
  proof (elim disjE exE conjE)
    assume "s' = s"
    with assms(1) show ?thesis by simp
  next
    fix a node c
    assume a: "node_store s f = Some a" "heap s a = Some node"
      and s': "s' = s\<lparr>heap := (heap s)(a \<mapsto> node\<lparr>is_evictable := b\<rparr>), curr_size := c\<rparr>"
    let ?nd = "node\<lparr>is_evictable := b\<rparr>"
    from assms(1) have inv: "2 \<le> replacer_k s" "store_ok s" "pools_ok s" "hist_ok s" "order_ok s"
      by (simp_all add: replacer_inv_def)
    have 1: "store_ok s'"
      by (rule store_ok_replace [OF inv(2) a(2), where nd = ?nd]) (simp_all add: s')
    have 2: "pools_ok s'"
      by (rule pools_ok_replace [OF inv(3) a(2), where nd = ?nd]) (simp_all add: s')
    from hist_ok_node [OF inv(4) a(2)] have 3: "hist_ok s'"
      by (intro hist_ok_update [OF inv(4), where nd = ?nd and a = a]) (simp_all add: s')
    have "front_at (heap s') = front_at (heap s)"
      using a(2) s' by (simp add: front_at_replace_same front_ts_flag)
    then have 4: "order_ok s'"
      by (intro order_ok_same_fronts [OF inv(5)]) (simp_all add: s')
    from inv(1) 1 2 3 4 s' show ?thesis
      by (simp add: replacer_inv_def)
  qed
qed

lemma replacer_inv_untrack:
  assumes "replacer_inv s" and "node_store s f = Some a"
    and "heap s' = (heap s)(a := None)" and "node_store s' = (node_store s)(f := None)"
    and "less_k s' = removeAll a (less_k s)" and "more_k s' = removeAll a (more_k s)"
    and "next_addr s' = next_addr s" and "current_timestamp s' = current_timestamp s"
    and "replacer_k s' = replacer_k s"
  shows "replacer_inv s'"
proof -
  from assms(1) have inv: "2 \<le> replacer_k s" "store_ok s" "pools_ok s" "hist_ok s" "order_ok s"
    by (simp_all add: replacer_inv_def)
  have 1: "store_ok s'"
    using inv(2) assms(2,3,4,7) by (rule store_ok_untrack)
  have 2: "pools_ok s'"
    using inv(3) assms(3,5,6,9) by (rule pools_ok_untrack)
  have 3: "hist_ok s'"
    using inv(4) assms(3,8,9) by (rule hist_ok_untrack)
  have 4: "order_ok s'"
    using inv(5) assms(3,5,6) by (rule order_ok_untrack)
  from inv(1) 1 2 3 4 assms(9) show ?thesis
    by (simp add: replacer_inv_def)
qed

lemma replacer_inv_Remove:
  assumes "replacer_inv s" and "Remove s f = Inr s'"
  shows "replacer_inv s'"
proof -
  from assms(1) have inv: "store_ok s" "pools_ok s"
    by (simp_all add: replacer_inv_def)
  from Remove_Inr [OF assms(2)] show ?thesis
  proof (elim disjE exE conjE)
    assume "s' = s"
    with assms(1) show ?thesis by simp
  next
    fix a node
    assume a: "node_store s f = Some a" "heap s a = Some node"
      and s': "if length (history node) < replacer_k s
        then s' = s\<lparr>less_k := removeAll a (less_k s), heap := (heap s)(a := None),
                    node_store := (node_store s)(f := None)\<rparr>
        else s' = s\<lparr>more_k := removeAll a (more_k s), heap := (heap s)(a := None),
                    node_store := (node_store s)(f := None)\<rparr>"
    show ?thesis
    proof (cases "length (history node) < replacer_k s")
      case True
      from pools_ok_cold [OF inv(2) a(2) True] have "removeAll a (more_k s) = more_k s"
        by simp
      with True s' show ?thesis
        by (intro replacer_inv_untrack [OF assms(1) a(1)]) simp_all
    next
      case False
      from pools_ok_warm [OF inv(2) a(2) False] have "removeAll a (less_k s) = less_k s"
        by simp
      with False s' show ?thesis
        by (intro replacer_inv_untrack [OF assms(1) a(1)]) simp_all
    qed
  qed
qed

lemma pools_ok_disjoint:
  "pools_ok s \<Longrightarrow> a \<in> set (less_k s) \<Longrightarrow> a \<in> set (more_k s) \<Longrightarrow> False"
  by (auto simp: pools_ok_def)

lemma find_evictable_in_pool:
  "find_evictable h xs = Inr (Some (a, v)) \<Longrightarrow> a \<in> set xs \<and> h a = Some v \<and> is_evictable v"
  using find_evictable_Some [of h xs a v] by auto

lemma replacer_inv_Evict:
  assumes "replacer_inv s" and "Evict s = Inr (res, s')"
  shows "replacer_inv s'"
proof -
  from assms(1) have inv: "store_ok s" "pools_ok s"
    by (simp_all add: replacer_inv_def)
  from Evict_Inr [OF assms(2)] show ?thesis
  proof (elim disjE exE conjE)
    assume "s' = s"
    with assms(1) show ?thesis by simp
  next
    fix a node
    assume f: "find_evictable (heap s) (less_k s) = Inr (Some (a, node))"
      and s': "s' = s\<lparr>less_k := removeAll a (less_k s),
               node_store := (node_store s)(fid node := None),
               curr_size := curr_size s - 1, heap := (heap s)(a := None)\<rparr>"
    from find_evictable_in_pool [OF f] have a: "a \<in> set (less_k s)" "heap s a = Some node"
      by simp_all
    from inv(2) a have "a \<notin> set (more_k s)"
      by (auto dest: pools_ok_disjoint)
    then have "removeAll a (more_k s) = more_k s"
      by simp
    with s' show ?thesis
      by (intro replacer_inv_untrack [OF assms(1) store_ok_node [OF inv(1) a(2)]]) simp_all
  next
    fix a node
    assume f: "find_evictable (heap s) (more_k s) = Inr (Some (a, node))"
      and s': "s' = s\<lparr>more_k := removeAll a (more_k s),
               node_store := (node_store s)(fid node := None),
               curr_size := curr_size s - 1, heap := (heap s)(a := None)\<rparr>"
    from find_evictable_in_pool [OF f] have a: "a \<in> set (more_k s)" "heap s a = Some node"
      by simp_all
    from inv(2) a have "a \<notin> set (less_k s)"
      by (auto dest: pools_ok_disjoint)
    then have "removeAll a (less_k s) = less_k s"
      by simp
    with s' show ?thesis
      by (intro replacer_inv_untrack [OF assms(1) store_ok_node [OF inv(1) a(2)]]) simp_all
  qed
qed

lemma history_append:
  assumes "hist_ok s" and "heap s a = Some n0"
  shows "sorted_wrt (<) (history n0 @ [current_timestamp s + 1])"
    and "\<forall>t \<in> set (history n0 @ [current_timestamp s + 1]). t \<le> current_timestamp s + 1"
    and "sorted_wrt (<) (tl (history n0 @ [current_timestamp s + 1]))"
    and "\<forall>t \<in> set (tl (history n0 @ [current_timestamp s + 1])). t \<le> current_timestamp s + 1"
proof -
  from hist_ok_node [OF assms] obtain t ts where h: "history n0 = t # ts"
    and srt: "sorted_wrt (<) (history n0)" and le: "\<forall>t \<in> set (history n0). t \<le> current_timestamp s"
    by (cases "history n0") auto
  from le have lt: "\<forall>t \<in> set (history n0). t < current_timestamp s + 1"
    by auto
  with srt show 1: "sorted_wrt (<) (history n0 @ [current_timestamp s + 1])"
    by (simp add: sorted_wrt_append)
  from le show 2: "\<forall>t \<in> set (history n0 @ [current_timestamp s + 1]). t \<le> current_timestamp s + 1"
    by auto
  from 1 h show "sorted_wrt (<) (tl (history n0 @ [current_timestamp s + 1]))"
    by simp
  from 2 h show "\<forall>t \<in> set (tl (history n0 @ [current_timestamp s + 1])). t \<le> current_timestamp s + 1"
    by simp
qed

lemma replacer_inv_RecordAccess:
  assumes "replacer_inv s" and "RecordAccess s f = Inr s'" and "current_timestamp s + 1 < 2 ^ 64"
  shows "replacer_inv s'"
proof -
  from assms(1) have inv: "2 \<le> replacer_k s" "store_ok s" "pools_ok s" "hist_ok s" "order_ok s"
    by (simp_all add: replacer_inv_def)
  let ?ts = "current_timestamp s + 1"
  from assms(3) have ts: "?ts = (current_timestamp s + 1) mod 2 ^ 64"
    by simp
  from assms(2) ts show ?thesis
  proof (cases rule: RecordAccess_cases)
    case new
    let ?nd = "\<lparr>history = [?ts], fid = f, is_evictable = False\<rparr>"
    have 1: "store_ok s'"
      by (rule store_ok_new [OF inv(2) new(1), where nd = ?nd]) (simp_all add: new(2))
    have 2: "pools_ok s'"
      using inv(1)
      by (intro pools_ok_new [OF inv(3) store_ok_fresh [OF inv(2)], where nd = ?nd])
        (simp_all add: new(2))
    have 3: "hist_ok s'"
      using inv(1)
      by (intro hist_ok_update [OF inv(4), where nd = ?nd and a = "next_addr s"])
        (simp_all add: new(2))
    have 4: "order_ok s'"
      by (intro order_ok_new [OF inv(5) inv(3) inv(4) store_ok_fresh [OF inv(2)], where nd = ?nd])
        (simp_all add: new(2) front_ts_def)
    from inv(1) 1 2 3 4 new(2) show ?thesis
      by (simp add: replacer_inv_def)
  next
    case (cold a n0)
    let ?nd = "n0\<lparr>history := history n0 @ [?ts]\<rparr>"
    note h = hist_ok_node [OF inv(4) cold(2)]
    have 1: "store_ok s'"
      by (rule store_ok_replace [OF inv(2) cold(2), where nd = ?nd]) (simp_all add: cold(4))
    have 2: "pools_ok s'"
      using cold(3)
      by (intro pools_ok_replace [OF inv(3) cold(2), where nd = ?nd]) (simp_all add: cold(4))
    have 3: "hist_ok s'"
      using cold(3) history_append(1,2) [OF inv(4) cold(2)]
      by (intro hist_ok_update [OF inv(4), where nd = ?nd and a = a]) (simp_all add: cold(4))
    have "front_at (heap s') = front_at (heap s)"
      using cold(2) h by (simp add: cold(4) front_at_replace_same front_ts_append)
    then have 4: "order_ok s'"
      by (intro order_ok_same_fronts [OF inv(5)]) (simp_all add: cold(4))
    from inv(1) 1 2 3 4 cold(4) show ?thesis
      by (simp add: replacer_inv_def)
  next
    case (to_warm a n0 nd r)
    from to_warm(3) have c: "length (history n0) < replacer_k s"
      by simp
    from pools_ok_cold [OF inv(3) to_warm(2) c] have rm: "removeAll a (more_k s) = more_k s"
      by simp
    have 1: "store_ok s'"
      by (rule store_ok_replace [OF inv(2) to_warm(2), where nd = nd])
        (simp_all add: to_warm(4,6))
    have 2: "pools_ok s'"
      using to_warm(3,5) rm
      by (intro pools_ok_warm_insert [OF inv(3), where nd = nd and a = a
            and h = "(heap s)(a \<mapsto> nd)" and kth = "front_ts nd"])
        (simp_all add: to_warm(4,6))
    have 3: "hist_ok s'"
      using to_warm(3) history_append(1,2) [OF inv(4) to_warm(2)]
      by (intro hist_ok_update [OF inv(4), where nd = nd and a = a]) (simp_all add: to_warm(4,6))
    have 4: "order_ok s'"
      using to_warm(5) rm
      by (intro order_ok_warm_insert [OF inv(5), where nd = nd and a = a])
        (simp_all add: to_warm(6))
    from inv(1) 1 2 3 4 to_warm(6) show ?thesis
      by (simp add: replacer_inv_def)
  next
    case (warm a n0 nd r)
    note h = hist_ok_node [OF inv(4) warm(2)]
    from h warm(3) have len: "length (history n0) = replacer_k s"
      by simp
    then have w: "\<not> length (history n0) < replacer_k s"
      by simp
    from pools_ok_warm [OF inv(3) warm(2) w] have rm: "removeAll a (less_k s) = less_k s"
      by simp
    have 1: "store_ok s'"
      by (rule store_ok_replace [OF inv(2) warm(2), where nd = nd])
        (simp_all add: warm(4,7))
    have 2: "pools_ok s'"
      using len warm(6) rm
      by (intro pools_ok_warm_insert [OF inv(3), where nd = nd and a = a
            and h = "(heap s)(a \<mapsto> nd)" and kth = "front_ts nd"])
        (simp_all add: warm(4,7))
    have 3: "hist_ok s'"
      using len warm(5) history_append(3,4) [OF inv(4) warm(2)]
      by (intro hist_ok_update [OF inv(4), where nd = nd and a = a]) (simp_all add: warm(4,7))
    have 4: "order_ok s'"
      using warm(6) rm
      by (intro order_ok_warm_insert [OF inv(5), where nd = nd and a = a])
        (simp_all add: warm(7))
    from inv(1) 1 2 3 4 warm(7) show ?thesis
      by (simp add: replacer_inv_def)
  qed
qed

lemma current_timestamp_step:
  "apply_op s x = Inr s' \<Longrightarrow> current_timestamp s + 1 < 2 ^ 64 \<Longrightarrow>
   current_timestamp s' \<le> current_timestamp s + 1"
proof (cases x)
  case (Op_RecordAccess f)
  assume "apply_op s x = Inr s'" "current_timestamp s + 1 < 2 ^ 64"
  with Op_RecordAccess have "RecordAccess s f = Inr s'" by simp
  moreover from \<open>current_timestamp s + 1 < 2 ^ 64\<close>
  have "current_timestamp s + 1 = (current_timestamp s + 1) mod 2 ^ 64"
    by simp
  ultimately show ?thesis
    by (cases rule: RecordAccess_cases) simp_all
next
  case (Op_SetEvictable f b)
  assume "apply_op s x = Inr s'"
  with Op_SetEvictable have "SetEvictable s f b = Inr s'" by simp
  from SetEvictable_Inr [OF this] show ?thesis by auto
next
  case Op_Evict
  assume "apply_op s x = Inr s'"
  with Op_Evict obtain res where "Evict s = Inr (res, s')"
    by (auto split: sum.splits)
  from Evict_Inr [OF this] show ?thesis by auto
next
  case (Op_Remove f)
  assume "apply_op s x = Inr s'"
  with Op_Remove have "Remove s f = Inr s'" by simp
  from Remove_Inr [OF this] show ?thesis by (auto split: if_splits)
qed

lemma replacer_inv_apply_op:
  assumes "replacer_inv s" and "apply_op s x = Inr s'" and "current_timestamp s + 1 < 2 ^ 64"
  shows "replacer_inv s'"
proof (cases x)
  case (Op_RecordAccess f)
  with assms show ?thesis by (simp add: replacer_inv_RecordAccess)
next
  case (Op_SetEvictable f b)
  with assms show ?thesis by (simp add: replacer_inv_SetEvictable)
next
  case Op_Evict
  with assms(2) obtain res where "Evict s = Inr (res, s')"
    by (auto split: sum.splits)
  with assms(1) show ?thesis by (rule replacer_inv_Evict)
next
  case (Op_Remove f)
  with assms show ?thesis by (simp add: replacer_inv_Remove)
qed

lemma replacer_inv_run_ops:
  "replacer_inv s \<Longrightarrow> run_ops s ops = Inr s' \<Longrightarrow>
   current_timestamp s + length ops < 2 ^ 64 \<Longrightarrow> replacer_inv s'"
proof (induction ops arbitrary: s)
  case Nil
  then show ?case by simp
next
  case (Cons x ops)
  from Cons.prems(2) obtain s1 where s1: "apply_op s x = Inr s1" "run_ops s1 ops = Inr s'"
    by (cases "apply_op s x") auto
  from Cons.prems(3) have b: "current_timestamp s + 1 < 2 ^ 64"
    by simp
  from replacer_inv_apply_op [OF Cons.prems(1) s1(1) b] have i: "replacer_inv s1" .
  from current_timestamp_step [OF s1(1) b] Cons.prems(3)
  have "current_timestamp s1 + length ops < 2 ^ 64"
    by simp
  from Cons.IH [OF i s1(2) this] show ?case .
qed

lemma replacer_inv_reachable:
  assumes "run_ops (LRUKReplacer_init n k) ops = Inr s" and "2 \<le> k" and "length ops < 2 ^ 64"
  shows "replacer_inv s"
  using replacer_inv_run_ops [OF replacer_inv_init [OF assms(2)] assms(1)] assms(3)
  by (simp add: LRUKReplacer_init_def)

subsection \<open>Calls on one frame\<close>

text \<open>
  Whatever \<open>K\<close> is, a call on frame \<open>f\<close> keeps the tracking map and the store
  consistent and leaves the nodes of all other frames as they were.
\<close>

lemma Remove_untracks:
  "Remove r f = Inr r' \<Longrightarrow> node_store r' f = None"
  by (auto simp: Remove_def Let_def split: if_splits option.splits)

lemma touches_only_refl: "store_ok r \<Longrightarrow> touches_only r f r"
  by (simp add: touches_only_def)

lemma touches_only_trans:
  "touches_only r f r1 \<Longrightarrow> touches_only r1 f r2 \<Longrightarrow> touches_only r f r2"
  unfolding touches_only_def by (intro conjI allI impI) (simp, simp, simp, metis)

lemma flag_of_other:
  assumes "store_ok r" and "g \<noteq> f" and "node_store r' g = node_store r g"
    and "\<forall>b. b \<noteq> a \<longrightarrow> heap r' b = heap r b"
    and "node_store r f = Some a \<or> heap r a = None"
  shows "flag_of r' g = flag_of r g"
proof (cases "node_store r g")
  case None
  with assms(3) show ?thesis by (simp add: flag_of_def)
next
  case (Some b)
  from store_ok_tracked [OF assms(1) Some] obtain n where n: "heap r b = Some n" "fid n = g"
    by blast
  have "b \<noteq> a"
  proof
    assume "b = a"
    with assms(5) n have "node_store r f = Some b" by auto
    from store_ok_tracked [OF assms(1) this] n assms(2) show False by auto
  qed
  with assms(3,4) Some show ?thesis by (simp add: flag_of_def)
qed

lemma touches_only_replace:
  assumes "store_ok r" and "node_store r f = Some a" and "heap r a = Some old" and "fid nd = fid old"
    and "heap r' = (heap r)(a \<mapsto> nd)" and "node_store r' = node_store r"
    and "next_addr r' = next_addr r" and "replacer_size r' = replacer_size r"
  shows "touches_only r f r'"
  unfolding touches_only_def
proof (intro conjI allI impI)
  show "store_ok r'"
    using assms(1,3,4,5,6,7) by (rule store_ok_replace)
  show "replacer_size r' = replacer_size r" by fact
next
  fix g assume "g \<noteq> f"
  with assms(1) show "flag_of r' g = flag_of r g"
    by (rule flag_of_other [where a = a]) (simp_all add: assms)
next
  fix b node assume "heap r' b = Some node"
  with assms(3,4,5) show "fid node = f \<or> (\<exists>n0. heap r b = Some n0 \<and> fid n0 = fid node)"
    by (cases "b = a") auto
qed

lemma touches_only_untrack:
  assumes "store_ok r" and "node_store r f = Some a"
    and "heap r' = (heap r)(a := None)" and "node_store r' = (node_store r)(f := None)"
    and "next_addr r' = next_addr r" and "replacer_size r' = replacer_size r"
  shows "touches_only r f r'" and "flag_of r' f = None"
proof -
  show "flag_of r' f = None"
    using assms(4) by (simp add: flag_of_def)
  show "touches_only r f r'"
    unfolding touches_only_def
  proof (intro conjI allI impI)
    show "store_ok r'"
      using assms(1,2,3,4,5) by (rule store_ok_untrack)
    show "replacer_size r' = replacer_size r" by fact
  next
    fix g assume g: "g \<noteq> f"
    with assms(1) show "flag_of r' g = flag_of r g"
      by (rule flag_of_other [where a = a]) (simp_all add: assms g)
  next
    fix b node assume "heap r' b = Some node"
    with assms(3) show "fid node = f \<or> (\<exists>n0. heap r b = Some n0 \<and> fid n0 = fid node)"
      by (cases "b = a") auto
  qed
qed

lemma touches_only_new:
  assumes "store_ok r" and "node_store r f = None" and "fid nd = f"
    and "heap r' = (heap r)(next_addr r \<mapsto> nd)"
    and "node_store r' = (node_store r)(f \<mapsto> next_addr r)"
    and "next_addr r' = Suc (next_addr r)" and "replacer_size r' = replacer_size r"
  shows "touches_only r f r'"
  unfolding touches_only_def
proof (intro conjI allI impI)
  show "store_ok r'"
    using assms(1,2,3,4,5,6) by (rule store_ok_new)
  show "replacer_size r' = replacer_size r" by fact
next
  fix g assume g: "g \<noteq> f"
  with assms(1) show "flag_of r' g = flag_of r g"
    by (rule flag_of_other [where a = "next_addr r"]) (simp_all add: assms g store_ok_fresh)
next
  fix b node assume "heap r' b = Some node"
  with assms(3,4) show "fid node = f \<or> (\<exists>n0. heap r b = Some n0 \<and> fid n0 = fid node)"
    by (cases "b = next_addr r") auto
qed

lemma touches_only_SetEvictable:
  assumes "store_ok r" and "SetEvictable r f b = Inr r'"
  shows "touches_only r f r'"
proof -
  from SetEvictable_Inr [OF assms(2)] show ?thesis
  proof (elim disjE exE conjE)
    assume "r' = r"
    with assms(1) show ?thesis by (simp add: touches_only_refl)
  next
    fix a node c
    assume "node_store r f = Some a" "heap r a = Some node"
      "r' = r\<lparr>heap := (heap r)(a \<mapsto> node\<lparr>is_evictable := b\<rparr>), curr_size := c\<rparr>"
    then show ?thesis
      by (intro touches_only_replace [OF assms(1), where a = a and old = node
            and nd = "node\<lparr>is_evictable := b\<rparr>"]) simp_all
  qed
qed

lemma SetEvictable_True_flag:
  "SetEvictable r f True = Inr r' \<Longrightarrow> flag_of r' f \<noteq> Some False"
  by (auto simp: SetEvictable_def flag_of_def split: if_splits option.splits)

lemma touches_only_Remove:
  assumes "store_ok r" and "Remove r f = Inr r'"
  shows "touches_only r f r'" and "flag_of r' f = None"
proof -
  from Remove_untracks [OF assms(2)] show "flag_of r' f = None"
    by (simp add: flag_of_def)
  from Remove_Inr [OF assms(2)] show "touches_only r f r'"
  proof (elim disjE exE conjE)
    assume "r' = r"
    with assms(1) show ?thesis by (simp add: touches_only_refl)
  next
    fix a node
    assume a: "node_store r f = Some a"
      and r': "if length (history node) < replacer_k r
        then r' = r\<lparr>less_k := removeAll a (less_k r), heap := (heap r)(a := None),
                    node_store := (node_store r)(f := None)\<rparr>
        else r' = r\<lparr>more_k := removeAll a (more_k r), heap := (heap r)(a := None),
                    node_store := (node_store r)(f := None)\<rparr>"
    from r' show ?thesis
      by (intro touches_only_untrack(1) [OF assms(1) a]) (simp_all split: if_splits)
  qed
qed

lemma touches_only_Evict:
  assumes "store_ok r" and "Evict r = Inr (Some f, r')"
  shows "touches_only r f r'" and "flag_of r' f = None"
    and "\<exists>a node. heap r a = Some node \<and> fid node = f"
proof -
  from Evict_Inr [OF assms(2)] obtain a node pool where
    f: "f = fid node" and fe: "find_evictable (heap r) pool = Inr (Some (a, node))"
    and r': "heap r' = (heap r)(a := None)" "node_store r' = (node_store r)(f := None)"
      "next_addr r' = next_addr r" "replacer_size r' = replacer_size r"
    by (elim disjE exE conjE) auto
  from find_evictable_in_pool [OF fe] have h: "heap r a = Some node" by simp
  from store_ok_node [OF assms(1) h] f have a: "node_store r f = Some a" by simp
  from h f show "\<exists>a node. heap r a = Some node \<and> fid node = f" by blast
  from touches_only_untrack [OF assms(1) a r']
  show "touches_only r f r'" "flag_of r' f = None" .
qed

lemma Evict_None_same: "Evict r = Inr (None, r') \<Longrightarrow> r' = r"
  using Evict_Inr [of r None r'] by auto

lemma touches_only_RecordAccess:
  assumes "store_ok r" and "RecordAccess r f = Inr r'"
  shows "touches_only r f r'"
proof -
  have "(current_timestamp r + 1) mod 2 ^ 64 = (current_timestamp r + 1) mod 2 ^ 64" ..
  with assms(2) show ?thesis
  proof (cases rule: RecordAccess_cases)
    case new
    then show ?thesis
      by (intro touches_only_new [OF assms(1) new(1), where
            nd = "\<lparr>history = [(current_timestamp r + 1) mod 2 ^ 64], fid = f, is_evictable = False\<rparr>"])
        simp_all
  next
    case (cold a n0)
    from store_ok_tracked [OF assms(1) cold(1)] cold(2) have "fid n0 = f" by simp
    with cold show ?thesis
      by (intro touches_only_replace [OF assms(1) cold(1,2), where
            nd = "n0\<lparr>history := history n0 @ [(current_timestamp r + 1) mod 2 ^ 64]\<rparr>"])
        simp_all
  next
    case (to_warm a n0 nd x)
    then show ?thesis
      by (intro touches_only_replace [OF assms(1) to_warm(1,2), where nd = nd]) simp_all
  next
    case (warm a n0 nd x)
    then show ?thesis
      by (intro touches_only_replace [OF assms(1) warm(1,2), where nd = nd]) simp_all
  qed
qed

subsection \<open>The frame id guard and \<^verbatim>\<open>Size()\<close>\<close>

text \<open>
  The guard of the three calls refuses exactly the ids below 0 and above \<open>pool_size\<close>. As
  long as \<^verbatim>\<open>Remove\<close> is not called, \<^verbatim>\<open>Size()\<close> is the number of evictable nodes.
\<close>

lemma frame_id_guard:
  assumes "- (2 ^ 31) \<le> f" and "f < 2 ^ 31" and "replacer_size s < 2 ^ 63"
  shows "replacer_size s < size_t_of f \<longleftrightarrow> f < 0 \<or> int (replacer_size s) < f"
proof (cases "f < 0")
  case True
  have "f mod 2 ^ 64 = (f + 2 ^ 64) mod 2 ^ 64"
    by simp
  also from True assms(1) have "\<dots> = f + 2 ^ 64"
    by (intro mod_pos_pos_trivial) simp_all
  finally have "size_t_of f = nat (f + 2 ^ 64)"
    by (simp add: size_t_of_def)
  with True assms show ?thesis
    by simp
next
  case False
  with assms(2) have "f mod 2 ^ 64 = f"
    by simp
  with False show ?thesis
    by (auto simp: size_t_of_def)
qed

lemma finite_evictable_nodes: "store_ok s \<Longrightarrow> finite (evictable_nodes s)"
proof (rule finite_subset)
  assume "store_ok s"
  then show "evictable_nodes s \<subseteq> {..<next_addr s}"
    by (auto simp: evictable_nodes_def dest: store_ok_bound)
qed simp

lemma evictable_nodes_mark:
  assumes "heap s a = Some node" and "\<not> is_evictable node"
    and "heap s' = (heap s)(a \<mapsto> node\<lparr>is_evictable := True\<rparr>)"
  shows "evictable_nodes s' = insert a (evictable_nodes s)" and "a \<notin> evictable_nodes s"
  using assms by (auto simp: evictable_nodes_def)

lemma evictable_nodes_unmark:
  assumes "heap s a = Some node" and "is_evictable node"
    and "heap s' = (heap s)(a \<mapsto> node\<lparr>is_evictable := False\<rparr>)"
  shows "evictable_nodes s' = evictable_nodes s - {a}" and "a \<in> evictable_nodes s"
  using assms by (auto simp: evictable_nodes_def)

lemma evictable_nodes_delete:
  assumes "heap s a = Some node" and "is_evictable node" and "heap s' = (heap s)(a := None)"
  shows "evictable_nodes s' = evictable_nodes s - {a}" and "a \<in> evictable_nodes s"
  using assms by (auto simp: evictable_nodes_def)

lemma evictable_nodes_same_flags:
  assumes "\<forall>b. (map_option is_evictable (heap s' b) = Some True) =
               (map_option is_evictable (heap s b) = Some True)"
  shows "evictable_nodes s' = evictable_nodes s"
proof -
  have "(\<exists>node. heap s' b = Some node \<and> is_evictable node) \<longleftrightarrow>
        (\<exists>node. heap s b = Some node \<and> is_evictable node)" for b
    using assms [rule_format, of b] by (cases "heap s b"; cases "heap s' b") auto
  then show ?thesis by (simp add: evictable_nodes_def)
qed

lemma of_nat_card_remove:
  assumes "finite A" and "a \<in> A"
  shows "(of_nat (card (A - {a})) :: 64 word) = of_nat (card A) - 1"
proof -
  from assms have "Suc (card (A - {a})) = card A"
    by (rule card_Suc_Diff1)
  then have "(of_nat (card A) :: 64 word) = of_nat (Suc (card (A - {a})))"
    by (simp only:)
  also have "\<dots> = of_nat (card (A - {a})) + 1"
    by (simp only: of_nat_Suc add.commute)
  finally show ?thesis
    by (simp only: add_diff_cancel_right')
qed

lemma size_ok_SetEvictable:
  assumes "store_ok s" and "size_ok s" and "SetEvictable s f b = Inr s'"
  shows "size_ok s'"
proof -
  from assms(3) have rng: "\<not> replacer_size s < size_t_of f"
    by (cases "replacer_size s < size_t_of f") (simp_all add: SetEvictable_def)
  note fin = finite_evictable_nodes [OF assms(1)]
  show ?thesis
  proof (cases "node_store s f")
    case None
    with rng assms(3) have "s' = s" by (simp add: SetEvictable_def)
    with assms(2) show ?thesis by simp
  next
    case (Some a)
    with rng assms(3) obtain node where node: "heap s a = Some node"
      by (cases "heap s a") (simp_all add: SetEvictable_def)
    consider (same) "is_evictable node = b" | (mark) "\<not> is_evictable node" "b"
      | (unmark) "is_evictable node" "\<not> b"
      by blast
    then show ?thesis
    proof cases
      case same
      with rng Some node have "SetEvictable s f b = Inr s"
        by (simp add: SetEvictable_def)
      with assms(2,3) show ?thesis by simp
    next
      case mark
      with rng Some node have "SetEvictable s f b =
        Inr (s\<lparr>heap := (heap s)(a \<mapsto> node\<lparr>is_evictable := True\<rparr>), curr_size := curr_size s + 1\<rparr>)"
        by (simp add: SetEvictable_def)
      with assms(3) have
        s': "s' = s\<lparr>heap := (heap s)(a \<mapsto> node\<lparr>is_evictable := True\<rparr>), curr_size := curr_size s + 1\<rparr>"
        by simp
      have h: "heap s' = (heap s)(a \<mapsto> node\<lparr>is_evictable := True\<rparr>)"
        by (simp add: s')
      from evictable_nodes_mark [OF node mark(1) h] fin assms(2) show ?thesis
        by (simp add: size_ok_def s')
    next
      case unmark
      with rng Some node have "SetEvictable s f b =
        Inr (s\<lparr>heap := (heap s)(a \<mapsto> node\<lparr>is_evictable := False\<rparr>), curr_size := curr_size s - 1\<rparr>)"
        by (simp add: SetEvictable_def)
      with assms(3) have
        s': "s' = s\<lparr>heap := (heap s)(a \<mapsto> node\<lparr>is_evictable := False\<rparr>), curr_size := curr_size s - 1\<rparr>"
        by simp
      have h: "heap s' = (heap s)(a \<mapsto> node\<lparr>is_evictable := False\<rparr>)"
        by (simp add: s')
      from evictable_nodes_unmark [OF node unmark(1) h] assms(2) of_nat_card_remove [OF fin]
      show ?thesis
        by (simp add: size_ok_def s')
    qed
  qed
qed

lemma size_ok_Evict:
  assumes "store_ok s" and "size_ok s" and "Evict s = Inr (res, s')"
  shows "size_ok s'"
proof -
  note fin = finite_evictable_nodes [OF assms(1)]
  from Evict_Inr [OF assms(3)] consider "s' = s"
    | a node pool where "find_evictable (heap s) pool = Inr (Some (a, node))"
        "heap s' = (heap s)(a := None)" "curr_size s' = curr_size s - 1"
    by (elim disjE exE conjE) auto
  then show ?thesis
  proof cases
    case 1
    with assms(2) show ?thesis by simp
  next
    case (2 a node pool)
    from find_evictable_in_pool [OF 2(1)] have "heap s a = Some node" "is_evictable node"
      by simp_all
    from evictable_nodes_delete [OF this 2(2)] 2(3) assms(2) of_nat_card_remove [OF fin]
    show ?thesis by (simp add: size_ok_def)
  qed
qed

lemma size_ok_RecordAccess:
  assumes "store_ok s" and "size_ok s" and "RecordAccess s f = Inr s'"
  shows "size_ok s'"
proof -
  have "(current_timestamp s + 1) mod 2 ^ 64 = (current_timestamp s + 1) mod 2 ^ 64" ..
  with assms(3) have "curr_size s' = curr_size s \<and>
    (\<forall>b. (map_option is_evictable (heap s' b) = Some True) =
         (map_option is_evictable (heap s b) = Some True))"
  proof (cases rule: RecordAccess_cases)
    case new
    with store_ok_fresh [OF assms(1)] show ?thesis by simp
  next
    case (cold a n0)
    then show ?thesis by simp
  next
    case (to_warm a n0 nd r)
    then show ?thesis by simp
  next
    case (warm a n0 nd r)
    then show ?thesis by simp
  qed
  with assms(2) evictable_nodes_same_flags [of s' s] show ?thesis
    by (simp add: size_ok_def)
qed

lemma store_ok_apply_op:
  assumes "store_ok s" and "apply_op s x = Inr s'"
  shows "store_ok s'"
proof (cases x)
  case (Op_RecordAccess f)
  with assms(2) have "RecordAccess s f = Inr s'" by simp
  from touches_only_RecordAccess [OF assms(1) this] show ?thesis
    by (simp add: touches_only_def)
next
  case (Op_SetEvictable f b)
  with assms(2) have "SetEvictable s f b = Inr s'" by simp
  from touches_only_SetEvictable [OF assms(1) this] show ?thesis
    by (simp add: touches_only_def)
next
  case Op_Evict
  with assms(2) obtain res where e: "Evict s = Inr (res, s')"
    by (cases "Evict s") auto
  show ?thesis
  proof (cases res)
    case None
    with e Evict_None_same [of s s'] assms(1) show ?thesis by simp
  next
    case (Some f)
    with e touches_only_Evict(1) [OF assms(1), of f s'] show ?thesis
      by (simp add: touches_only_def)
  qed
next
  case (Op_Remove f)
  with assms(2) have "Remove s f = Inr s'" by simp
  from touches_only_Remove(1) [OF assms(1) this] show ?thesis
    by (simp add: touches_only_def)
qed

lemma size_ok_apply_op:
  assumes "store_ok s" and "size_ok s" and "apply_op s x = Inr s'" and "\<not> is_Remove x"
  shows "size_ok s'"
proof (cases x)
  case (Op_RecordAccess f)
  with assms(3) have "RecordAccess s f = Inr s'" by simp
  with assms(1,2) show ?thesis by (rule size_ok_RecordAccess)
next
  case (Op_SetEvictable f b)
  with assms(3) have "SetEvictable s f b = Inr s'" by simp
  with assms(1,2) show ?thesis by (rule size_ok_SetEvictable)
next
  case Op_Evict
  with assms(3) obtain res where "Evict s = Inr (res, s')"
    by (cases "Evict s") auto
  with assms(1,2) show ?thesis by (rule size_ok_Evict)
next
  case (Op_Remove f)
  with assms(4) show ?thesis by simp
qed

lemma size_ok_run_ops:
  "store_ok s \<Longrightarrow> size_ok s \<Longrightarrow> run_ops s ops = Inr s' \<Longrightarrow> \<forall>x \<in> set ops. \<not> is_Remove x \<Longrightarrow>
   size_ok s'"
proof (induction ops arbitrary: s)
  case Nil
  then show ?case by simp
next
  case (Cons x ops)
  from Cons.prems(3) obtain s1 where s1: "apply_op s x = Inr s1" "run_ops s1 ops = Inr s'"
    by (cases "apply_op s x") auto
  from Cons.prems(4) have nr: "\<not> is_Remove x" "\<forall>x \<in> set ops. \<not> is_Remove x"
    by simp_all
  from Cons.IH [OF store_ok_apply_op [OF Cons.prems(1) s1(1)]
      size_ok_apply_op [OF Cons.prems(1,2) s1(1) nr(1)] s1(2) nr(2)]
  show ?case .
qed

lemma Size_counts_evictable:
  assumes "run_ops (LRUKReplacer_init n k) ops = Inr s" and "\<forall>x \<in> set ops. \<not> is_Remove x"
  shows "Size s = of_nat (card (evictable_nodes s))"
proof -
  have "store_ok (LRUKReplacer_init n k)" "size_ok (LRUKReplacer_init n k)"
    by (simp_all add: store_ok_def size_ok_def evictable_nodes_def LRUKReplacer_init_def)
  from size_ok_run_ops [OF this assms] show ?thesis
    by (simp add: size_ok_def Size_def)
qed

subsection \<open>The victim of \<^verbatim>\<open>Evict\<close>\<close>

lemma find_evictable_first:
  assumes "find_evictable h xs = Inr (Some (a, v))"
    and "sorted_wrt (\<lambda>x y. R (front_at h x) (front_at h y)) xs"
    and "b \<in> set xs" and "h b = Some w" and "is_evictable w" and "b \<noteq> a"
  shows "R (front_ts v) (front_ts w)"
proof -
  from find_evictable_Some [OF assms(1)] obtain ys zs where
    xs: "xs = ys @ a # zs" and a: "h a = Some v"
    and ys: "\<forall>b \<in> set ys. \<forall>node. h b = Some node \<longrightarrow> \<not> is_evictable node"
    by blast
  from ys assms(4,5) have "b \<notin> set ys" by blast
  with assms(3,6) xs have "b \<in> set zs" by simp
  with assms(2) xs have "R (front_at h a) (front_at h b)"
    by (simp add: sorted_wrt_append)
  with a assms(4) show ?thesis
    by (simp add: front_at_def)
qed

lemma Evict_from_less_k:
  assumes "replacer_inv s" and "find_evictable (heap s) (less_k s) = Inr (Some (a, node))"
  shows "Evict s = Inr (Some (fid node), untracked s a node)"
proof -
  from assms(1) have p: "pools_ok s" by (simp add: replacer_inv_def)
  from find_evictable_in_pool [OF assms(2)] have "a \<in> set (less_k s)" by simp
  with p have "a \<notin> set (more_k s)" by (auto dest: pools_ok_disjoint)
  then have "removeAll a (more_k s) = more_k s" by simp
  with assms(2) show ?thesis
    by (simp add: Evict_def untracked_def)
qed

lemma Evict_from_more_k:
  assumes "replacer_inv s" and "find_evictable (heap s) (less_k s) = Inr None"
    and "find_evictable (heap s) (more_k s) = Inr (Some (a, node))"
  shows "Evict s = Inr (Some (fid node), untracked s a node)"
proof -
  from assms(1) have p: "pools_ok s" by (simp add: replacer_inv_def)
  from find_evictable_in_pool [OF assms(3)] have "a \<in> set (more_k s)" by simp
  with p have "a \<notin> set (less_k s)" by (auto dest: pools_ok_disjoint)
  then have "removeAll a (less_k s) = less_k s" by simp
  with assms(2,3) show ?thesis
    by (simp add: Evict_def untracked_def)
qed

lemma Evict_victim_inv:
  assumes "replacer_inv s"
  shows
    "if \<exists>a node. evictable_in s (less_k s) a node
     then \<exists>a node. evictable_in s (less_k s) a node \<and>
            length (history node) < replacer_k s \<and>
            (\<forall>b w. evictable_in s (less_k s) b w \<and> b \<noteq> a \<longrightarrow> front_ts node < front_ts w) \<and>
            node_store s (fid node) = Some a \<and>
            Evict s = Inr (Some (fid node), untracked s a node)
     else if \<exists>a node. evictable_in s (more_k s) a node
     then \<exists>a node. evictable_in s (more_k s) a node \<and>
            length (history node) = replacer_k s \<and> sorted_wrt (<) (history node) \<and>
            (\<forall>b w. evictable_in s (more_k s) b w \<longrightarrow> front_ts node \<le> front_ts w) \<and>
            node_store s (fid node) = Some a \<and>
            Evict s = Inr (Some (fid node), untracked s a node)
     else Evict s = Inr (None, s)"
proof -
  from assms have inv: "store_ok s" "pools_ok s" "order_ok s" "hist_ok s"
    by (simp_all add: replacer_inv_def)
  have "\<forall>a \<in> set (less_k s). heap s a \<noteq> None"
    using inv(2) by (auto dest: pools_ok_less_kD)
  from find_evictable_total [OF this] obtain r1 where r1: "find_evictable (heap s) (less_k s) = Inr r1"
    by blast
  have "\<forall>a \<in> set (more_k s). heap s a \<noteq> None"
    using inv(2) by (auto dest: pools_ok_more_kD)
  from find_evictable_total [OF this] obtain r2 where r2: "find_evictable (heap s) (more_k s) = Inr r2"
    by blast
  show ?thesis
  proof (cases r1)
    case (Some p)
    obtain a node where p: "p = (a, node)" by (cases p)
    with Some r1 have f: "find_evictable (heap s) (less_k s) = Inr (Some (a, node))" by simp
    from find_evictable_in_pool [OF f] have e: "evictable_in s (less_k s) a node"
      by (simp add: evictable_in_def)
    have first: "\<forall>b w. evictable_in s (less_k s) b w \<and> b \<noteq> a \<longrightarrow> front_ts node < front_ts w"
      using find_evictable_first [OF f, of "(<)"] inv(3)
      by (auto simp: evictable_in_def order_ok_def)
    from e have ha: "heap s a = Some node" and "a \<in> set (less_k s)"
      by (simp_all add: evictable_in_def)
    with pools_ok_less_kD [OF inv(2), of a] have cold: "length (history node) < replacer_k s"
      by auto
    from store_ok_node [OF inv(1) ha] have "node_store s (fid node) = Some a" .
    with e cold first Evict_from_less_k [OF assms f] show ?thesis
      by auto
  next
    case None
    with r1 have f1: "find_evictable (heap s) (less_k s) = Inr None" by simp
    then have no_cold: "\<not> (\<exists>a node. evictable_in s (less_k s) a node)"
      by (auto simp: evictable_in_def dest: find_evictable_None)
    show ?thesis
    proof (cases r2)
      case (Some p)
      obtain a node where p: "p = (a, node)" by (cases p)
      with Some r2 have f: "find_evictable (heap s) (more_k s) = Inr (Some (a, node))" by simp
      from find_evictable_in_pool [OF f] have e: "evictable_in s (more_k s) a node"
        by (simp add: evictable_in_def)
      then have ha: "heap s a = Some node" and "a \<in> set (more_k s)"
        by (simp_all add: evictable_in_def)
      with pools_ok_more_kD [OF inv(2), of a] hist_ok_node [OF inv(4), of a node]
      have warm: "length (history node) = replacer_k s" "sorted_wrt (<) (history node)"
        by auto
      have first: "front_ts node \<le> front_ts w" if "evictable_in s (more_k s) b w" for b w
      proof (cases "b = a")
        case True
        with that ha show ?thesis by (simp add: evictable_in_def)
      next
        case False
        with that find_evictable_first [OF f, of "(\<le>)" b w] inv(3) show ?thesis
          by (simp add: evictable_in_def order_ok_def)
      qed
      from store_ok_node [OF inv(1) ha] have "node_store s (fid node) = Some a" .
      with e warm first no_cold Evict_from_more_k [OF assms f1 f] show ?thesis
        by auto
    next
      case None
      with r2 have f2: "find_evictable (heap s) (more_k s) = Inr None" by simp
      then have no_warm: "\<not> (\<exists>a node. evictable_in s (more_k s) a node)"
        by (auto simp: evictable_in_def dest: find_evictable_None)
      from f1 f2 have "Evict s = Inr (None, s)"
        by (simp add: Evict_def)
      with no_cold no_warm show ?thesis by simp
    qed
  qed
qed

lemma sample_replacer_reached:
  "run_ops (LRUKReplacer_init 7 2) sample_ops = Inr sample_replacer"
  by (simp add: sample_ops_def sample_replacer_def replacer_defs fun_eq_iff)

lemma pools_by_history:
  assumes "run_ops (LRUKReplacer_init n k) ops = Inr s" and "2 \<le> k" and "length ops < 2 ^ 64"
    and "node_store s f = Some a"
  shows "\<exists>node. heap s a = Some node \<and> fid node = f \<and>
           history node \<noteq> [] \<and> length (history node) \<le> replacer_k s \<and>
           (a \<in> set (less_k s) \<longleftrightarrow> length (history node) < replacer_k s) \<and>
           (a \<in> set (more_k s) \<longleftrightarrow> length (history node) = replacer_k s)"
proof -
  from replacer_inv_reachable [OF assms(1,2,3)]
  have inv: "store_ok s" "pools_ok s" "hist_ok s"
    by (simp_all add: replacer_inv_def)
  from store_ok_tracked [OF inv(1) assms(4)] obtain node where n: "heap s a = Some node" "fid node = f"
    by blast
  from hist_ok_node [OF inv(3) n(1)] have h: "history node \<noteq> []" "length (history node) \<le> replacer_k s"
    by simp_all
  from inv(2) n(1) have "a \<in> set (less_k s) \<longleftrightarrow> length (history node) < replacer_k s"
    by (auto simp: pools_ok_def)
  moreover from inv(2) n(1) h(2) have "a \<in> set (more_k s) \<longleftrightarrow> length (history node) = replacer_k s"
    by (auto simp: pools_ok_def)
  ultimately show ?thesis using n h by blast
qed

subsection \<open>The pools for \<open>K \<ge> 2\<close>\<close>

text \<open>
  What the invariant says about the pools of a reachable state when \<open>K \<ge> 2\<close>: a tracked
  frame is in exactly one pool, the warm pool ascends by \<open>front_ts\<close>, and an access leaves
  the frame with one more timestamp, at most \<open>K\<close>, in the warm pool exactly when it
  has \<open>K\<close>.
\<close>

lemma tracked_in_one_pool:
  assumes "run_ops (LRUKReplacer_init n k) ops = Inr s" and "2 \<le> k" and "length ops < 2 ^ 64"
    and "node_store s f = Some a"
  shows "(a \<in> set (less_k s) \<and> a \<notin> set (more_k s)) \<or> (a \<in> set (more_k s) \<and> a \<notin> set (less_k s))"
  using pools_by_history [OF assms] by auto

lemma warm_pool_ascending:
  assumes "run_ops (LRUKReplacer_init n k) ops = Inr s" and "2 \<le> k" and "length ops < 2 ^ 64"
  shows "sorted (map (front_at (heap s)) (more_k s))"
  using replacer_inv_reachable [OF assms]
  by (simp add: replacer_inv_def order_ok_def sorted_wrt_map)

lemma run_ops_append:
  "run_ops s (xs @ ys) = (case run_ops s xs of Inl e \<Rightarrow> Inl e | Inr s1 \<Rightarrow> run_ops s1 ys)"
  by (induction xs arbitrary: s) (simp_all split: sum.splits)

lemma replacer_k_apply_op: "apply_op s x = Inr s' \<Longrightarrow> replacer_k s' = replacer_k s"
proof (cases x)
  case (Op_RecordAccess g)
  assume "apply_op s x = Inr s'"
  with Op_RecordAccess show ?thesis
    by (auto simp: RecordAccess_def reinsert_def Let_def
        split: if_splits option.splits list.splits sum.splits)
next
  case (Op_SetEvictable g b)
  assume "apply_op s x = Inr s'"
  with Op_SetEvictable SetEvictable_Inr [of s g b s'] show ?thesis by auto
next
  case Op_Evict
  assume "apply_op s x = Inr s'"
  with Op_Evict obtain res where "Evict s = Inr (res, s')" by (auto split: sum.splits)
  from Evict_Inr [OF this] show ?thesis by auto
next
  case (Op_Remove g)
  assume "apply_op s x = Inr s'"
  with Op_Remove Remove_Inr [of s g s'] show ?thesis by (auto split: if_splits)
qed

lemma replacer_k_run_ops: "run_ops s ops = Inr s' \<Longrightarrow> replacer_k s' = replacer_k s"
proof (induction ops arbitrary: s)
  case Nil
  then show ?case by simp
next
  case (Cons x xs)
  from Cons.prems obtain s1 where s1: "apply_op s x = Inr s1" "run_ops s1 xs = Inr s'"
    by (cases "apply_op s x") auto
  from Cons.IH [OF s1(2)] replacer_k_apply_op [OF s1(1)] show ?case by simp
qed

lemma RecordAccess_warm_on_Kth:
  assumes "run_ops (LRUKReplacer_init n k) ops = Inr s" and "2 \<le> k"
    and "Suc (length ops) < 2 ^ 64" and "RecordAccess s f = Inr s'"
  shows "\<exists>a node. node_store s' f = Some a \<and> heap s' a = Some node \<and>
           length (history node) =
             (case node_store s f of
                None \<Rightarrow> 1
              | Some a0 \<Rightarrow> (case heap s a0 of
                             None \<Rightarrow> 0
                           | Some n0 \<Rightarrow> min k (Suc (length (history n0))))) \<and>
           (a \<in> set (less_k s') \<longleftrightarrow> length (history node) < k) \<and>
           (a \<in> set (more_k s') \<longleftrightarrow> length (history node) = k)"
proof -
  from assms(3) have len: "length ops < 2 ^ 64" by simp
  from replacer_inv_reachable [OF assms(1,2) len] have h: "hist_ok s"
    by (simp add: replacer_inv_def)
  from replacer_k_run_ops [OF assms(1)] have k: "replacer_k s = k"
    by (simp add: LRUKReplacer_init_def)
  from replacer_inv_reachable [OF assms(1,2) len] have "current_timestamp s \<le> length ops"
  proof -
    have "\<And>s0. run_ops s0 ops = Inr s \<Longrightarrow> current_timestamp s0 + length ops < 2 ^ 64 \<Longrightarrow>
            current_timestamp s \<le> current_timestamp s0 + length ops"
    proof (induction ops)
      case Nil
      then show ?case by simp
    next
      case (Cons x xs)
      from Cons.prems(1) obtain s1 where s1: "apply_op s0 x = Inr s1" "run_ops s1 xs = Inr s"
        by (cases "apply_op s0 x") auto
      from Cons.prems(2) have "current_timestamp s0 + 1 < 2 ^ 64" by simp
      from current_timestamp_step [OF s1(1) this] Cons.prems(2) Cons.IH [OF s1(2)]
      show ?case by simp
    qed
    from this [OF assms(1)] len show ?thesis by (simp add: LRUKReplacer_init_def)
  qed
  with assms(3) have ts: "current_timestamp s + 1 = (current_timestamp s + 1) mod 2 ^ 64"
    by simp
  have r': "run_ops (LRUKReplacer_init n k) (ops @ [Op_RecordAccess f]) = Inr s'"
    using assms(1,4) by (simp add: run_ops_append)
  have l': "length (ops @ [Op_RecordAccess f]) < 2 ^ 64"
    using assms(3) by simp
  note reach = pools_by_history [OF r' assms(2) l']
  have k': "replacer_k s' = k"
    using assms(4) k replacer_k_apply_op [of s "Op_RecordAccess f" s'] by simp
  from assms(4) ts have
    "\<exists>a node. node_store s' f = Some a \<and> heap s' a = Some node \<and>
           length (history node) =
             (case node_store s f of
                None \<Rightarrow> 1
              | Some a0 \<Rightarrow> (case heap s a0 of
                             None \<Rightarrow> 0
                           | Some n0 \<Rightarrow> min k (Suc (length (history n0)))))"
  proof (cases rule: RecordAccess_cases)
    case new
    then show ?thesis by simp
  next
    case (cold a n0)
    with k show ?thesis by simp
  next
    case (to_warm a n0 nd r)
    with k show ?thesis by simp
  next
    case (warm a n0 nd r)
    from hist_ok_node [OF h warm(2)] warm(3) k have "length (history n0) = k" by simp
    with warm show ?thesis by simp
  qed
  then obtain a node where a: "node_store s' f = Some a" "heap s' a = Some node"
    "length (history node) =
             (case node_store s f of
                None \<Rightarrow> 1
              | Some a0 \<Rightarrow> (case heap s a0 of
                             None \<Rightarrow> 0
                           | Some n0 \<Rightarrow> min k (Suc (length (history n0)))))"
    by blast
  from reach [OF a(1)] a(2) k' have
    "(a \<in> set (less_k s') \<longleftrightarrow> length (history node) < k) \<and>
     (a \<in> set (more_k s') \<longleftrightarrow> length (history node) = k)"
    by auto
  with a show ?thesis by blast
qed

text \<open>
  For \<open>K \<ge> 2\<close> the victim of \<^verbatim>\<open>Evict\<close> is the one the spec describes, in every state
  that a run of calls reaches from a fresh replacer: the earliest-inserted evictable frame
  of the cold pool if the cold pool has an evictable frame; otherwise the evictable frame
  of the warm pool whose \<open>K\<close>-th most recent access is oldest; otherwise none. The chosen
  frame leaves its pool and the tracking map, and \<^verbatim>\<open>curr_size_\<close> is decremented. A node of
  the cold pool has fewer than \<open>K\<close> timestamps, and \<open>front_ts\<close> is its first access; a
  node of the warm pool has \<open>K\<close> timestamps in ascending order, and \<open>front_ts\<close> is the
  oldest of them.
\<close>

lemma Evict_victim_reachable:
  assumes "run_ops (LRUKReplacer_init n k) ops = Inr s" and "2 \<le> k" and "length ops < 2 ^ 64"
  shows
    "if \<exists>a node. evictable_in s (less_k s) a node
     then \<exists>a node. evictable_in s (less_k s) a node \<and>
            length (history node) < k \<and>
            (\<forall>b w. evictable_in s (less_k s) b w \<and> b \<noteq> a \<longrightarrow> front_ts node < front_ts w) \<and>
            node_store s (fid node) = Some a \<and>
            Evict s = Inr (Some (fid node), untracked s a node)
     else if \<exists>a node. evictable_in s (more_k s) a node
     then \<exists>a node. evictable_in s (more_k s) a node \<and>
            length (history node) = k \<and> sorted_wrt (<) (history node) \<and>
            (\<forall>b w. evictable_in s (more_k s) b w \<longrightarrow> front_ts node \<le> front_ts w) \<and>
            node_store s (fid node) = Some a \<and>
            Evict s = Inr (Some (fid node), untracked s a node)
     else Evict s = Inr (None, s)"
proof -
  from replacer_k_run_ops [OF assms(1)] have k: "replacer_k s = k"
    by (simp add: LRUKReplacer_init_def)
  from Evict_victim_inv [OF replacer_inv_reachable [OF assms]] show ?thesis
    unfolding k .
qed

lemma Evict_victim_sample:
  "run_ops (LRUKReplacer_init 7 2) sample_ops = Inr sample_replacer \<and> (2::nat) \<le> 2 \<and>
   length sample_ops < 2 ^ 64 \<and>
   evictable_in sample_replacer (less_k sample_replacer) 3
     \<lparr>history = [4], fid = 3, is_evictable = True\<rparr> \<and>
   (\<exists>a node. evictable_in sample_replacer (less_k sample_replacer) a node \<and>
      node_store sample_replacer (fid node) = Some a \<and>
      Evict sample_replacer = Inr (Some (fid node), untracked sample_replacer a node)) \<and>
   Evict sample_replacer =
     Inr (Some 3, untracked sample_replacer 3 \<lparr>history = [4], fid = 3, is_evictable = True\<rparr>)"
proof -
  have len: "length sample_ops < 2 ^ 64"
    by (simp add: sample_ops_def)
  have ev: "evictable_in sample_replacer (less_k sample_replacer) 3
     \<lparr>history = [4], fid = 3, is_evictable = True\<rparr>"
    by (simp add: evictable_in_def sample_replacer_def)
  then have ex: "\<exists>a node. evictable_in sample_replacer (less_k sample_replacer) a node"
    by blast
  have run: "Evict sample_replacer =
     Inr (Some 3, untracked sample_replacer 3 \<lparr>history = [4], fid = 3, is_evictable = True\<rparr>)"
    by (simp add: Evict_def untracked_def sample_replacer_def)
  from Evict_victim_reachable [OF sample_replacer_reached _ len] ex
  have "\<exists>a node. evictable_in sample_replacer (less_k sample_replacer) a node \<and>
      node_store sample_replacer (fid node) = Some a \<and>
      Evict sample_replacer = Inr (Some (fid node), untracked sample_replacer a node)"
    by auto
  with sample_replacer_reached len ev run show ?thesis
    by simp
qed

text \<open>
  Claim C4. \<^verbatim>\<open>Evict\<close> is to return the earliest-inserted evictable frame of the cold
  pool (the frames with fewer than \<open>K\<close> accesses) if there is one; otherwise the evictable
  frame of the warm pool whose \<open>K\<close>-th most recent access is oldest; otherwise none; and
  the chosen frame is to leave its pool and the tracking map. With \<open>K = 1\<close> the code does
  not do so. After accesses to frames 0, 1, 0, both marked evictable, each frame has
  \<open>K = 1\<close> timestamp, 3 for frame 0 and 2 for frame 1, so no frame is cold and frame 1 has
  the oldest \<open>K\<close>-th most recent access; the node of frame 0 is in \<^verbatim>\<open>less_k_\<close> and in
  \<^verbatim>\<open>more_k_\<close>. \<^verbatim>\<open>Evict\<close> returns frame 0 and deletes its node, which stays in
  \<^verbatim>\<open>more_k_\<close>. The next \<^verbatim>\<open>Evict\<close> returns frame 1. Nothing is tracked then, and the
  third \<^verbatim>\<open>Evict\<close>, instead of returning none, reads the deleted node.
\<close>

theorem K1_Evict_wrong_victim:
  "\<exists>s s1 s2.
     run_ops (LRUKReplacer_init 7 1)
       [Op_RecordAccess 0, Op_RecordAccess 1, Op_RecordAccess 0,
        Op_SetEvictable 0 True, Op_SetEvictable 1 True] = Inr s \<and>
     less_k s = [0, 1] \<and> more_k s = [0] \<and>
     heap s 0 = Some \<lparr>history = [3], fid = 0, is_evictable = True\<rparr> \<and>
     heap s 1 = Some \<lparr>history = [2], fid = 1, is_evictable = True\<rparr> \<and>
     Evict s = Inr (Some 0, s1) \<and>
     node_store s1 0 = None \<and> heap s1 0 = None \<and> less_k s1 = [1] \<and> more_k s1 = [0] \<and>
     Evict s1 = Inr (Some 1, s2) \<and>
     (\<forall>f. node_store s2 f = None) \<and> less_k s2 = [] \<and> more_k s2 = [0] \<and>
     Evict s2 = Inl Undefined_behaviour"
  by (simp add: replacer_defs)

section \<open>The buffer pool manager: evaluation and behaviour\<close>

lemmas bpm_defs =
  BufferPoolManager_init_def NewPage_def FetchPage_def UnpinPage_def FlushPage_def DeletePage_def
  GetFreeFrame_def InitNewPage_def Pinpage_def AllocatePage_def DeallocatePage_def
  page_at_def set_page_def WritePage_def ReadPage_def empty_page_def INVALID_def INVALID_PAGE_ID_def

lemma bpm_pinned_reached:
  "run_bpm_ops (BufferPoolManager_init 1 disk0 2) [Op_NewPage] = Inr bpm_pinned"
  by (simp add: bpm_defs replacer_defs bpm_pinned_def)

lemma SetEvictable_True_marks:
  "SetEvictable r f True = Inr r' \<Longrightarrow> node_store r f = Some a \<Longrightarrow>
   \<exists>node. heap r' a = Some node \<and> is_evictable node"
  by (auto simp: SetEvictable_def split: if_splits option.splits)

lemma page_at_set_page:
  "page_at (set_page s f p) g =
     (if 0 \<le> g \<and> nat g < length (pages s) then Inr (if nat g = nat f then p else pages s ! nat g)
      else Inl Undefined_behaviour)"
  by (simp add: page_at_def set_page_def)

lemma bpm_unpinned_reached:
  "run_bpm_ops (BufferPoolManager_init 1 disk0 2) [Op_NewPage, Op_UnpinPage 0 True] = Inr bpm_unpinned"
  by (simp add: bpm_defs replacer_defs bpm_unpinned_def)

lemma bpm_deleted_reached:
  "run_bpm_ops (BufferPoolManager_init 1 disk0 2) [Op_NewPage, Op_UnpinPage 0 True, Op_DeletePage 0] = Inr bpm_deleted"
  by (simp add: bpm_defs replacer_defs bpm_deleted_def disk0_def)

lemma Page_overwrite:
  "(page :: Page)\<lparr>data := a, page_id := b, pin_count := c, is_dirty := d\<rparr> =
     \<lparr>data = a, page_id = b, pin_count = c, is_dirty = d\<rparr>"
  by (cases page) simp

lemma DeletePage_unpinned:
  assumes "resident s pid frame_id page" and "pin_count page \<le> 0"
    and "Remove (replacer s) frame_id = Inr r"
  shows "DeletePage s pid =
           Inr (True,
                DeallocatePage
                  (set_page (s\<lparr>page_table := (page_table s)(pid := None), replacer := r,
                               free_list := free_list s @ [frame_id]\<rparr>) frame_id empty_page) pid)"
  using assms by (simp add: DeletePage_def resident_def Let_def empty_page_def Page_overwrite)

subsection \<open>The manager's invariant\<close>

text \<open>
  A call of the replacer on one frame leaves the other frames' nodes alone, whatever \<open>K\<close>
  is; with that, every call of the manager keeps the manager's invariant, and in a reachable
  state the replacer calls made by \<^verbatim>\<open>UnpinPage\<close> and \<^verbatim>\<open>DeletePage\<close> do not throw.
\<close>

lemma bpm_inv_step:
  assumes inv: "bpm_inv_ex X s" and f: "frame_ok s f"
    and rep: "touches_only (replacer s) f (replacer s')"
    and sz: "pool_size s' = pool_size s" "length (pages s') = length (pages s)"
    and fl: "set (free_list s') \<subseteq> insert f (set (free_list s))"
    and pt: "\<forall>p g. page_table s' p = Some g \<longrightarrow> g = f \<or> (\<exists>q. page_table s q = Some g)"
    and pins: "\<forall>g. frame_ok s g \<and> g \<noteq> f \<longrightarrow> pin_count (pages s' ! nat g) = pin_count (pages s ! nat g)"
    and pf: "0 \<le> pin_count (pages s' ! nat f)"
    and ex: "X - {f} \<subseteq> Y"
    and ff: "f \<in> Y \<or> pin_count (pages s' ! nat f) \<noteq> 0 \<or> flag_of (replacer s') f \<noteq> Some False"
  shows "bpm_inv_ex Y s'"
proof -
  from inv have fr: "frames_ok s" and pn: "pins_ok X s"
    by (simp_all add: bpm_inv_ex_def)
  have ok: "frame_ok s' g = frame_ok s g" for g
    using sz by (simp add: frame_ok_def)
  from rep have st: "store_ok (replacer s')" and rs: "replacer_size (replacer s') = replacer_size (replacer s)"
    and fg: "\<And>g. g \<noteq> f \<Longrightarrow> flag_of (replacer s') g = flag_of (replacer s) g"
    and hp: "\<And>a node. heap (replacer s') a = Some node \<Longrightarrow>
        fid node = f \<or> (\<exists>n0. heap (replacer s) a = Some n0 \<and> fid n0 = fid node)"
    by (simp_all add: touches_only_def)
  have 1: "frames_ok s'"
    unfolding frames_ok_def
  proof (intro conjI ballI allI impI)
    from fr sz rs show "length (pages s') = pool_size s'" "replacer_size (replacer s') = pool_size s'"
      by (simp_all add: frames_ok_def)
  next
    fix g assume "g \<in> set (free_list s')"
    with fl have "g = f \<or> g \<in> set (free_list s)" by auto
    with fr f show "frame_ok s' g" by (auto simp: ok frames_ok_def)
  next
    fix p g assume "page_table s' p = Some g"
    with pt have "g = f \<or> (\<exists>q. page_table s q = Some g)" by blast
    with fr f show "frame_ok s' g" by (auto simp: ok frames_ok_def)
  next
    fix a node assume "heap (replacer s') a = Some node"
    from hp [OF this] fr f show "frame_ok s' (fid node)"
      unfolding ok frames_ok_def by metis
  qed
  have 2: "pins_ok Y s'"
    unfolding pins_ok_def
  proof (intro allI impI)
    fix g assume "frame_ok s' g"
    then have g: "frame_ok s g" by (simp add: ok)
    show "0 \<le> pin_count (pages s' ! nat g) \<and>
        (g \<notin> Y \<and> pin_count (pages s' ! nat g) = 0 \<longrightarrow> flag_of (replacer s') g \<noteq> Some False)"
    proof (cases "g = f")
      case True
      with pf ff show ?thesis by auto
    next
      case False
      with pins g have "pin_count (pages s' ! nat g) = pin_count (pages s ! nat g)" by simp
      moreover from ex False have "g \<notin> Y \<Longrightarrow> g \<notin> X" by auto
      ultimately show ?thesis
        using pn g fg [OF False] by (auto simp: pins_ok_def)
    qed
  qed
  from st 1 2 show ?thesis by (simp add: bpm_inv_ex_def)
qed

lemma page_at_Inr:
  "page_at s f = Inr page \<Longrightarrow> 0 \<le> f \<and> nat f < length (pages s) \<and> page = pages s ! nat f"
  by (auto simp: page_at_def split: if_splits)

lemma frames_ok_page_at:
  "frames_ok s \<Longrightarrow> page_at s f = Inr page \<Longrightarrow> frame_ok s f \<and> page = pages s ! nat f"
  by (auto simp: frames_ok_def frame_ok_def dest: page_at_Inr)

lemma nth_set_page_other:
  "0 \<le> f \<Longrightarrow> 0 \<le> g \<Longrightarrow> g \<noteq> f \<Longrightarrow> pages (set_page s f p) ! nat g = pages s ! nat g"
  by (simp add: set_page_def)

lemma nth_set_page_same:
  "nat f < length (pages s) \<Longrightarrow> pages (set_page s f p) ! nat f = p"
  by (simp add: set_page_def)

lemma bpm_inv_init: "bpm_inv_ex {} (BufferPoolManager_init n dm k)"
  by (auto simp: bpm_inv_ex_def frames_ok_def pins_ok_def frame_ok_def store_ok_def flag_of_def
      BufferPoolManager_init_def LRUKReplacer_init_def empty_page_def)

lemma bpm_inv_ex_mono: "bpm_inv_ex X s \<Longrightarrow> X \<subseteq> Y \<Longrightarrow> bpm_inv_ex Y s"
  by (auto simp: bpm_inv_ex_def pins_ok_def)

lemma UnpinPage_Inr:
  "UnpinPage s pid dirty = Inr (b, s') \<Longrightarrow>
   s' = s \<or>
   (\<exists>f page r. page_table s pid = Some f \<and> page_at s f = Inr page \<and> pin_count page \<noteq> 0 \<and>
      (if pin_count page = 1 then SetEvictable (replacer s) f True = Inr r else r = replacer s) \<and>
      s' = set_page (s\<lparr>replacer := r\<rparr>) f
             (page\<lparr>pin_count := pin_count page - 1, is_dirty := (is_dirty page \<or> dirty)\<rparr>))"
  unfolding UnpinPage_def Let_def
  by (auto split: option.splits sum.splits if_splits)

lemma FlushPage_Inr:
  "FlushPage s pid = Inr (b, s') \<Longrightarrow>
   s' = s \<or>
   (\<exists>f page. page_at s f = Inr page \<and>
      s' = set_page (s\<lparr>disk_manager := WritePage (disk_manager s) pid (data page)\<rparr>) f
             (page\<lparr>is_dirty := False\<rparr>))"
  unfolding FlushPage_def
  by (auto split: option.splits sum.splits if_splits)

lemma DeletePage_Inr:
  "DeletePage s pid = Inr (b, s') \<Longrightarrow>
   s' = s \<or>
   (\<exists>f page r. page_table s pid = Some f \<and> page_at s f = Inr page \<and>
      Remove (replacer s) f = Inr r \<and>
      s' = DeallocatePage
             (set_page (s\<lparr>page_table := (page_table s)(pid := None), replacer := r,
                          free_list := free_list s @ [f]\<rparr>) f empty_page) pid)"
  unfolding DeletePage_def Let_def
  by (auto simp: Page_overwrite empty_page_def split: option.splits sum.splits if_splits)

lemma bpm_inv_UnpinPage:
  assumes "bpm_inv_ex {} s" and "UnpinPage s pid dirty = Inr (b, s')"
  shows "bpm_inv_ex {} s'"
proof -
  from assms(1) have fr: "frames_ok s" and pn: "pins_ok {} s" and st: "store_ok (replacer s)"
    by (simp_all add: bpm_inv_ex_def)
  from UnpinPage_Inr [OF assms(2)] show ?thesis
  proof (elim disjE exE conjE)
    assume "s' = s"
    with assms(1) show ?thesis by simp
  next
    fix f page r
    assume pg: "page_at s f = Inr page" and nz: "pin_count page \<noteq> 0"
      and r: "if pin_count page = 1 then SetEvictable (replacer s) f True = Inr r else r = replacer s"
      and s': "s' = set_page (s\<lparr>replacer := r\<rparr>) f
             (page\<lparr>pin_count := pin_count page - 1, is_dirty := (is_dirty page \<or> dirty)\<rparr>)"
    from frames_ok_page_at [OF fr pg] have f: "frame_ok s f" and page: "page = pages s ! nat f"
      by simp_all
    from page_at_Inr [OF pg] have rng: "0 \<le> f" "nat f < length (pages s)"
      by simp_all
    from pn f page have "0 \<le> pin_count page" by (simp add: pins_ok_def)
    with nz have pos: "1 \<le> pin_count page" by simp
    have t: "touches_only (replacer s) f r"
      using r st by (auto simp: touches_only_refl touches_only_SetEvictable split: if_splits)
    have fl: "pin_count page = 1 \<Longrightarrow> flag_of r f \<noteq> Some False"
      using r by (auto dest: SetEvictable_True_flag)
    show ?thesis
    proof (rule bpm_inv_step [OF assms(1) f, where Y = "{}"])
      show "touches_only (replacer s) f (replacer s')"
        using t by (simp add: s' set_page_def)
      show "pool_size s' = pool_size s" "length (pages s') = length (pages s)"
        by (simp_all add: s' set_page_def)
      show "set (free_list s') \<subseteq> insert f (set (free_list s))"
        by (auto simp: s' set_page_def)
      show "\<forall>p g. page_table s' p = Some g \<longrightarrow> g = f \<or> (\<exists>q. page_table s q = Some g)"
        by (auto simp: s' set_page_def)
      show "\<forall>g. frame_ok s g \<and> g \<noteq> f \<longrightarrow>
              pin_count (pages s' ! nat g) = pin_count (pages s ! nat g)"
        using rng by (auto simp: s' set_page_def frame_ok_def)
      show "0 \<le> pin_count (pages s' ! nat f)"
        using rng pos by (simp add: s' set_page_def)
      show "{} - {f} \<subseteq> {}" by simp
      show "f \<in> {} \<or> pin_count (pages s' ! nat f) \<noteq> 0 \<or> flag_of (replacer s') f \<noteq> Some False"
        using rng fl by (auto simp: s' set_page_def)
    qed
  qed
qed

lemma bpm_inv_FlushPage:
  assumes "bpm_inv_ex X s" and "FlushPage s pid = Inr (b, s')"
  shows "bpm_inv_ex X s'"
proof -
  from assms(1) have fr: "frames_ok s" and pn: "pins_ok X s" and st: "store_ok (replacer s)"
    by (simp_all add: bpm_inv_ex_def)
  from FlushPage_Inr [OF assms(2)] show ?thesis
  proof (elim disjE exE conjE)
    assume "s' = s"
    with assms(1) show ?thesis by simp
  next
    fix f page
    assume pg: "page_at s f = Inr page"
      and s': "s' = set_page (s\<lparr>disk_manager := WritePage (disk_manager s) pid (data page)\<rparr>) f
             (page\<lparr>is_dirty := False\<rparr>)"
    from frames_ok_page_at [OF fr pg] have f: "frame_ok s f" and page: "page = pages s ! nat f"
      by simp_all
    from page_at_Inr [OF pg] have rng: "0 \<le> f" "nat f < length (pages s)"
      by simp_all
    have same: "pin_count (pages s' ! nat f) = pin_count (pages s ! nat f)"
      using rng page by (simp add: s' set_page_def)
    show ?thesis
    proof (rule bpm_inv_step [OF assms(1) f, where Y = X])
      show "touches_only (replacer s) f (replacer s')"
        using st by (simp add: s' set_page_def touches_only_refl)
      show "pool_size s' = pool_size s" "length (pages s') = length (pages s)"
        by (simp_all add: s' set_page_def)
      show "set (free_list s') \<subseteq> insert f (set (free_list s))"
        by (auto simp: s' set_page_def)
      show "\<forall>p g. page_table s' p = Some g \<longrightarrow> g = f \<or> (\<exists>q. page_table s q = Some g)"
        by (auto simp: s' set_page_def)
      show "\<forall>g. frame_ok s g \<and> g \<noteq> f \<longrightarrow>
              pin_count (pages s' ! nat g) = pin_count (pages s ! nat g)"
        using rng by (auto simp: s' set_page_def frame_ok_def)
      show "0 \<le> pin_count (pages s' ! nat f)"
        using same pn f by (simp add: pins_ok_def)
      show "X - {f} \<subseteq> X" by auto
      show "f \<in> X \<or> pin_count (pages s' ! nat f) \<noteq> 0 \<or> flag_of (replacer s') f \<noteq> Some False"
        using same pn f by (auto simp: pins_ok_def s' set_page_def)
    qed
  qed
qed

lemma bpm_inv_DeletePage:
  assumes "bpm_inv_ex {} s" and "DeletePage s pid = Inr (b, s')"
  shows "bpm_inv_ex {} s'"
proof -
  from assms(1) have fr: "frames_ok s" and st: "store_ok (replacer s)"
    by (simp_all add: bpm_inv_ex_def)
  from DeletePage_Inr [OF assms(2)] show ?thesis
  proof (elim disjE exE conjE)
    assume "s' = s"
    with assms(1) show ?thesis by simp
  next
    fix f page r
    assume pg: "page_at s f = Inr page" and r: "Remove (replacer s) f = Inr r"
      and s': "s' = DeallocatePage
             (set_page (s\<lparr>page_table := (page_table s)(pid := None), replacer := r,
                          free_list := free_list s @ [f]\<rparr>) f empty_page) pid"
    from frames_ok_page_at [OF fr pg] have f: "frame_ok s f"
      by simp
    from page_at_Inr [OF pg] have rng: "0 \<le> f" "nat f < length (pages s)"
      by simp_all
    show ?thesis
    proof (rule bpm_inv_step [OF assms(1) f, where Y = "{}"])
      show "touches_only (replacer s) f (replacer s')"
        using touches_only_Remove(1) [OF st r] by (simp add: s' set_page_def DeallocatePage_def)
      show "pool_size s' = pool_size s" "length (pages s') = length (pages s)"
        by (simp_all add: s' set_page_def DeallocatePage_def)
      show "set (free_list s') \<subseteq> insert f (set (free_list s))"
        by (auto simp: s' set_page_def DeallocatePage_def)
      show "\<forall>p g. page_table s' p = Some g \<longrightarrow> g = f \<or> (\<exists>q. page_table s q = Some g)"
        by (auto simp: s' set_page_def DeallocatePage_def split: if_splits)
      show "\<forall>g. frame_ok s g \<and> g \<noteq> f \<longrightarrow>
              pin_count (pages s' ! nat g) = pin_count (pages s ! nat g)"
        using rng by (auto simp: s' set_page_def DeallocatePage_def frame_ok_def)
      show "0 \<le> pin_count (pages s' ! nat f)"
        using rng by (simp add: s' set_page_def DeallocatePage_def empty_page_def)
      show "{} - {f} \<subseteq> {}" by simp
      show "f \<in> {} \<or> pin_count (pages s' ! nat f) \<noteq> 0 \<or> flag_of (replacer s') f \<noteq> Some False"
        using touches_only_Remove(2) [OF st r] by (simp add: s' set_page_def DeallocatePage_def)
    qed
  qed
qed

lemma bpm_inv_fields:
  assumes "bpm_inv_ex X s"
    and "replacer s' = replacer s" and "pool_size s' = pool_size s" and "pages s' = pages s"
    and "set (free_list s') \<subseteq> set (free_list s)"
    and "\<forall>p g. page_table s' p = Some g \<longrightarrow> (\<exists>q. page_table s q = Some g)"
  shows "bpm_inv_ex X s'"
proof -
  from assms(1) have fr: "frames_ok s" and pn: "pins_ok X s" and st: "store_ok (replacer s)"
    by (simp_all add: bpm_inv_ex_def)
  have ok: "frame_ok s' g = frame_ok s g" for g
    using assms(3) by (simp add: frame_ok_def)
  have 1: "frames_ok s'"
    unfolding frames_ok_def
  proof (intro conjI ballI allI impI)
    from fr assms(2,3,4) show "length (pages s') = pool_size s'"
      "replacer_size (replacer s') = pool_size s'"
      by (simp_all add: frames_ok_def)
  next
    fix g assume "g \<in> set (free_list s')"
    with assms(5) fr show "frame_ok s' g" by (auto simp: ok frames_ok_def)
  next
    fix p g assume "page_table s' p = Some g"
    with assms(6) obtain q where "page_table s q = Some g" by blast
    with fr show "frame_ok s' g" unfolding ok frames_ok_def by blast
  next
    fix a node assume "heap (replacer s') a = Some node"
    with assms(2) fr show "frame_ok s' (fid node)" unfolding ok frames_ok_def by simp
  qed
  have 2: "pins_ok X s'"
    using pn assms(2,4) by (simp add: pins_ok_def ok)
  from st assms(2) 1 2 show ?thesis by (simp add: bpm_inv_ex_def)
qed

lemma GetFreeFrame_Inr:
  "GetFreeFrame s = Inr (f, s') \<Longrightarrow>
   (\<exists>rest. free_list s = f # rest \<and> s' = s\<lparr>free_list := rest\<rparr>) \<or>
   (\<exists>r page s2. free_list s = [] \<and> Evict (replacer s) = Inr (Some f, r) \<and>
      page_at (s\<lparr>replacer := r\<rparr>) f = Inr page \<and>
      (if is_dirty page then \<exists>b. FlushPage (s\<lparr>replacer := r\<rparr>) (page_id page) = Inr (b, s2)
       else s2 = s\<lparr>replacer := r\<rparr>) \<and>
      s' = s2\<lparr>page_table := (page_table s2)(page_id page := None)\<rparr>)"
  unfolding GetFreeFrame_def Let_def
  by (auto split: list.splits sum.splits option.splits prod.splits if_splits)

lemma bpm_inv_GetFreeFrame:
  assumes "bpm_inv_ex {} s" and "GetFreeFrame s = Inr (f, s')"
  shows "bpm_inv_ex {} s'" and "frame_ok s' f"
proof -
  from assms(1) have fr: "frames_ok s" and st: "store_ok (replacer s)"
    by (simp_all add: bpm_inv_ex_def)
  from GetFreeFrame_Inr [OF assms(2)] have "bpm_inv_ex {} s' \<and> frame_ok s' f"
  proof (elim disjE exE conjE)
    fix rest assume fl: "free_list s = f # rest" and s': "s' = s\<lparr>free_list := rest\<rparr>"
    from fl fr have "frame_ok s f" by (simp add: frames_ok_def)
    moreover have "bpm_inv_ex {} s'"
      using fl by (intro bpm_inv_fields [OF assms(1)]) (auto simp: s')
    ultimately show ?thesis by (simp add: s' frame_ok_def)
  next
    fix r page s2
    assume ev: "Evict (replacer s) = Inr (Some f, r)"
      and fp: "if is_dirty page then \<exists>b. FlushPage (s\<lparr>replacer := r\<rparr>) (page_id page) = Inr (b, s2)
               else s2 = s\<lparr>replacer := r\<rparr>"
      and s': "s' = s2\<lparr>page_table := (page_table s2)(page_id page := None)\<rparr>"
    let ?s1 = "s\<lparr>replacer := r\<rparr>"
    from touches_only_Evict(3) [OF st ev] fr have f: "frame_ok s f"
      by (auto simp: frames_ok_def)
    have 1: "bpm_inv_ex {} ?s1"
    proof (rule bpm_inv_step [OF assms(1) f, where Y = "{}"])
      show "touches_only (replacer s) f (replacer ?s1)"
        using touches_only_Evict(1) [OF st ev] by simp
      show "f \<in> {} \<or> pin_count (pages ?s1 ! nat f) \<noteq> 0 \<or> flag_of (replacer ?s1) f \<noteq> Some False"
        using touches_only_Evict(2) [OF st ev] by simp
      show "0 \<le> pin_count (pages ?s1 ! nat f)"
        using assms(1) f by (simp add: bpm_inv_ex_def pins_ok_def)
    qed auto
    have 2: "bpm_inv_ex {} s2"
      using fp 1 by (auto split: if_splits dest: bpm_inv_FlushPage)
    have ps: "pool_size s2 = pool_size s"
      using fp by (auto split: if_splits dest!: FlushPage_Inr simp: set_page_def)
    have "bpm_inv_ex {} s'"
      by (intro bpm_inv_fields [OF 2]) (auto simp: s' split: if_splits)
    with f ps show ?thesis by (simp add: s' frame_ok_def)
  qed
  then show "bpm_inv_ex {} s'" "frame_ok s' f" by simp_all
qed

lemma InitNewPage_Inr:
  "InitNewPage s pid f = Inr s' \<Longrightarrow>
   \<exists>page. page_at s f = Inr page \<and>
     s' = (set_page s f (page\<lparr>data := zeroed, page_id := pid, pin_count := 0, is_dirty := False\<rparr>))
            \<lparr>page_table := (page_table s)(pid \<mapsto> f)\<rparr>"
  unfolding InitNewPage_def by (auto split: sum.splits)

lemma bpm_inv_InitNewPage:
  assumes "bpm_inv_ex {} s" and "InitNewPage s pid f = Inr s'"
  shows "bpm_inv_ex {f} s'" and "page_table s' pid = Some f"
proof -
  from assms(1) have fr: "frames_ok s"
    by (simp add: bpm_inv_ex_def)
  from InitNewPage_Inr [OF assms(2)] obtain page where pg: "page_at s f = Inr page"
    and s': "s' = (set_page s f (page\<lparr>data := zeroed, page_id := pid, pin_count := 0, is_dirty := False\<rparr>))
            \<lparr>page_table := (page_table s)(pid \<mapsto> f)\<rparr>"
    by blast
  from frames_ok_page_at [OF fr pg] have f: "frame_ok s f" by simp
  from page_at_Inr [OF pg] have rng: "0 \<le> f" "nat f < length (pages s)"
    by simp_all
  show "page_table s' pid = Some f" by (simp add: s')
  show "bpm_inv_ex {f} s'"
  proof (rule bpm_inv_step [OF assms(1) f, where Y = "{f}"])
    show "touches_only (replacer s) f (replacer s')"
      using assms(1) by (simp add: s' set_page_def bpm_inv_ex_def touches_only_refl)
    show "\<forall>p g. page_table s' p = Some g \<longrightarrow> g = f \<or> (\<exists>q. page_table s q = Some g)"
      by (auto simp: s' split: if_splits)
    show "\<forall>g. frame_ok s g \<and> g \<noteq> f \<longrightarrow>
              pin_count (pages s' ! nat g) = pin_count (pages s ! nat g)"
      using rng by (auto simp: s' set_page_def frame_ok_def)
    show "0 \<le> pin_count (pages s' ! nat f)"
      using rng by (simp add: s' set_page_def)
  qed (auto simp: s' set_page_def)
qed

lemma Pinpage_Inr:
  "Pinpage s pid = Inr s' \<Longrightarrow>
   \<exists>f page r1 r2. page_table s pid = Some f \<and> page_at s f = Inr page \<and>
     RecordAccess (replacer s) f = Inr r1 \<and> SetEvictable r1 f False = Inr r2 \<and>
     s' = set_page (s\<lparr>replacer := r2\<rparr>) f (page\<lparr>pin_count := pin_count page + 1\<rparr>)"
  unfolding Pinpage_def by (auto split: option.splits sum.splits if_splits)

lemma bpm_inv_Pinpage:
  assumes "bpm_inv_ex X s" and "Pinpage s pid = Inr s'" and "page_table s pid = Some f" and "X \<subseteq> {f}"
  shows "bpm_inv_ex {} s'" and "page_table s' = page_table s"
proof -
  from assms(1) have fr: "frames_ok s" and pn: "pins_ok X s" and st: "store_ok (replacer s)"
    by (simp_all add: bpm_inv_ex_def)
  from Pinpage_Inr [OF assms(2)] assms(3) obtain page r1 r2 where pg: "page_at s f = Inr page"
    and r1: "RecordAccess (replacer s) f = Inr r1" and r2: "SetEvictable r1 f False = Inr r2"
    and s': "s' = set_page (s\<lparr>replacer := r2\<rparr>) f (page\<lparr>pin_count := pin_count page + 1\<rparr>)"
    by auto
  from frames_ok_page_at [OF fr pg] have f: "frame_ok s f" and page: "page = pages s ! nat f"
    by simp_all
  from page_at_Inr [OF pg] have rng: "0 \<le> f" "nat f < length (pages s)"
    by simp_all
  from pn f page have nn: "0 \<le> pin_count page" by (simp add: pins_ok_def)
  from touches_only_RecordAccess [OF st r1] have t1: "touches_only (replacer s) f r1" .
  then have "store_ok r1" by (simp add: touches_only_def)
  from touches_only_trans [OF t1 touches_only_SetEvictable [OF this r2]]
  have t: "touches_only (replacer s) f r2" .
  show "page_table s' = page_table s" by (simp add: s' set_page_def)
  show "bpm_inv_ex {} s'"
  proof (rule bpm_inv_step [OF assms(1) f, where Y = "{}"])
    show "touches_only (replacer s) f (replacer s')"
      using t by (simp add: s' set_page_def)
    show "\<forall>g. frame_ok s g \<and> g \<noteq> f \<longrightarrow>
              pin_count (pages s' ! nat g) = pin_count (pages s ! nat g)"
      using rng by (auto simp: s' set_page_def frame_ok_def)
    show "0 \<le> pin_count (pages s' ! nat f)"
      using rng nn by (simp add: s' set_page_def)
    show "f \<in> {} \<or> pin_count (pages s' ! nat f) \<noteq> 0 \<or> flag_of (replacer s') f \<noteq> Some False"
      using rng nn by (simp add: s' set_page_def)
    show "X - {f} \<subseteq> {}" using assms(4) by auto
  qed (auto simp: s' set_page_def)
qed

lemma bpm_inv_NewPage:
  assumes "bpm_inv_ex {} s" and "NewPage s = Inr (res, pid, s')"
  shows "bpm_inv_ex {} s'"
proof (cases "free_list s = [] \<and> Size (replacer s) = 0")
  case True
  with assms show ?thesis by (simp add: NewPage_def)
next
  case False
  with assms(2) obtain f s1 s3 where g: "GetFreeFrame s = Inr (f, s1)"
    and i: "InitNewPage (s1\<lparr>next_page_id := (next_page_id s1 + 1 + 2 ^ 31) mod 2 ^ 32 - 2 ^ 31\<rparr>)
              (next_page_id s1) f = Inr s3"
    and p: "Pinpage s3 (next_page_id s1) = Inr s'"
    by (auto simp: NewPage_def AllocatePage_def split: sum.splits prod.splits)
  from bpm_inv_GetFreeFrame(1) [OF assms(1) g] have "bpm_inv_ex {} s1" .
  then have "bpm_inv_ex {} (s1\<lparr>next_page_id := (next_page_id s1 + 1 + 2 ^ 31) mod 2 ^ 32 - 2 ^ 31\<rparr>)"
    by (rule bpm_inv_fields) auto
  from bpm_inv_InitNewPage [OF this i] bpm_inv_Pinpage(1) [OF _ p] show ?thesis
    by blast
qed

lemma bpm_inv_FetchPage:
  assumes "bpm_inv_ex {} s" and "FetchPage s pid = Inr (res, s')"
  shows "bpm_inv_ex {} s'"
proof (cases "page_table s pid")
  case (Some f)
  with assms(2) obtain s1 where p: "Pinpage s pid = Inr s1"
    by (auto simp: FetchPage_def split: sum.splits)
  from bpm_inv_Pinpage [OF assms(1) p Some] have 1: "bpm_inv_ex {} s1" "page_table s1 = page_table s"
    by simp_all
  with assms(2) Some p have "s' = s1"
    by (simp add: FetchPage_def)
  with 1 show ?thesis by simp
next
  case None
  show ?thesis
  proof (cases "free_list s = [] \<and> Size (replacer s) = 0")
    case True
    with assms None show ?thesis by (simp add: FetchPage_def)
  next
    case False
    with assms(2) None obtain f s1 s2 s3 page where g: "GetFreeFrame s = Inr (f, s1)"
      and i: "InitNewPage s1 pid f = Inr s2" and p: "Pinpage s2 pid = Inr s3"
      and pg: "page_at s3 f = Inr page"
      and s': "s' = set_page (s3\<lparr>disk_manager := snd (ReadPage (disk_manager s3) pid)\<rparr>) f
                      (page\<lparr>data := fst (ReadPage (disk_manager s3) pid)\<rparr>)"
      by (auto simp: FetchPage_def split: sum.splits prod.splits)
    from bpm_inv_GetFreeFrame(1) [OF assms(1) g] have "bpm_inv_ex {} s1" .
    from bpm_inv_InitNewPage [OF this i] bpm_inv_Pinpage(1) [OF _ p] have 3: "bpm_inv_ex {} s3"
      by blast
    then have fr: "frames_ok s3" and pn: "pins_ok {} s3" and st: "store_ok (replacer s3)"
      by (simp_all add: bpm_inv_ex_def)
    from frames_ok_page_at [OF fr pg] have f: "frame_ok s3 f" and page: "page = pages s3 ! nat f"
      by simp_all
    from page_at_Inr [OF pg] have rng: "0 \<le> f" "nat f < length (pages s3)"
      by simp_all
    have same: "pin_count (pages s' ! nat f) = pin_count (pages s3 ! nat f)"
      using rng page by (simp add: s' set_page_def)
    show ?thesis
    proof (rule bpm_inv_step [OF 3 f, where Y = "{}"])
      show "touches_only (replacer s3) f (replacer s')"
        using st by (simp add: s' set_page_def touches_only_refl)
      show "\<forall>g. frame_ok s3 g \<and> g \<noteq> f \<longrightarrow>
              pin_count (pages s' ! nat g) = pin_count (pages s3 ! nat g)"
        using rng by (auto simp: s' set_page_def frame_ok_def)
      show "0 \<le> pin_count (pages s' ! nat f)"
        using same pn f by (simp add: pins_ok_def)
      show "f \<in> {} \<or> pin_count (pages s' ! nat f) \<noteq> 0 \<or> flag_of (replacer s') f \<noteq> Some False"
        using same pn f by (auto simp: pins_ok_def s' set_page_def)
    qed (auto simp: s' set_page_def)
  qed
qed

lemma bpm_inv_apply_bpm_op:
  assumes "bpm_inv_ex {} s" and "apply_bpm_op s x = Inr s'"
  shows "bpm_inv_ex {} s'"
proof (cases x)
  case Op_NewPage
  with assms(2) obtain res pid where "NewPage s = Inr (res, pid, s')"
    by (auto split: sum.splits)
  with assms(1) show ?thesis by (rule bpm_inv_NewPage)
next
  case (Op_FetchPage pid)
  with assms(2) obtain res where "FetchPage s pid = Inr (res, s')"
    by (auto split: sum.splits)
  with assms(1) show ?thesis by (rule bpm_inv_FetchPage)
next
  case (Op_UnpinPage pid dirty)
  with assms(2) obtain b where "UnpinPage s pid dirty = Inr (b, s')"
    by (auto split: sum.splits)
  with assms(1) show ?thesis by (rule bpm_inv_UnpinPage)
next
  case (Op_FlushPage pid)
  with assms(2) obtain b where "FlushPage s pid = Inr (b, s')"
    by (auto split: sum.splits)
  with assms(1) show ?thesis by (rule bpm_inv_FlushPage)
next
  case (Op_DeletePage pid)
  with assms(2) obtain b where "DeletePage s pid = Inr (b, s')"
    by (auto split: sum.splits)
  with assms(1) show ?thesis by (rule bpm_inv_DeletePage)
qed

lemma bpm_inv_run_bpm_ops:
  "bpm_inv_ex {} s \<Longrightarrow> run_bpm_ops s ops = Inr s' \<Longrightarrow> bpm_inv_ex {} s'"
proof (induction ops arbitrary: s)
  case Nil
  then show ?case by simp
next
  case (Cons x ops)
  from Cons.prems(2) obtain s1 where s1: "apply_bpm_op s x = Inr s1" "run_bpm_ops s1 ops = Inr s'"
    by (cases "apply_bpm_op s x") auto
  from Cons.IH [OF bpm_inv_apply_bpm_op [OF Cons.prems(1) s1(1)] s1(2)] show ?case .
qed

lemma size_t_of_frame: "0 \<le> f \<Longrightarrow> size_t_of f \<le> nat f"
  by (simp add: size_t_of_def nat_le_iff zmod_le_nonneg_dividend)

lemma reachable_calls_succeed:
  assumes "run_bpm_ops (BufferPoolManager_init n dm k) ops = Inr s"
    and "resident s pid f page"
  shows "0 \<le> pin_count page"
    and "\<exists>r. SetEvictable (replacer s) f True = Inr r"
    and "pin_count page = 0 \<Longrightarrow> \<exists>r. Remove (replacer s) f = Inr r"
proof -
  from bpm_inv_run_bpm_ops [OF bpm_inv_init assms(1)]
  have fr: "frames_ok s" and pn: "pins_ok {} s" and st: "store_ok (replacer s)"
    by (simp_all add: bpm_inv_ex_def)
  from assms(2) have pg: "page_at s f = Inr page"
    by (simp add: resident_def)
  from frames_ok_page_at [OF fr pg] have f: "frame_ok s f" and page: "page = pages s ! nat f"
    by simp_all
  from pn f page show "0 \<le> pin_count page"
    by (simp add: pins_ok_def)
  from f fr size_t_of_frame [of f] have rng: "\<not> replacer_size (replacer s) < size_t_of f"
    by (simp add: frame_ok_def frames_ok_def)
  have live: "\<exists>node. heap (replacer s) a = Some node" if "node_store (replacer s) f = Some a" for a
    using store_ok_tracked [OF st that] by blast
  from rng live show "\<exists>r. SetEvictable (replacer s) f True = Inr r"
    by (cases "node_store (replacer s) f") (auto simp: SetEvictable_def)
  assume "pin_count page = 0"
  with pn f page have fl: "flag_of (replacer s) f \<noteq> Some False"
    by (simp add: pins_ok_def)
  show "\<exists>r. Remove (replacer s) f = Inr r"
  proof (cases "node_store (replacer s) f")
    case None
    with rng show ?thesis by (simp add: Remove_def)
  next
    case (Some a)
    from live [OF Some] obtain node where node: "heap (replacer s) a = Some node" ..
    with Some fl have "is_evictable node" by (simp add: flag_of_def)
    with rng Some node show ?thesis by (simp add: Remove_def Let_def)
  qed
qed

text \<open>
  In a state the manager reaches, \<^verbatim>\<open>UnpinPage\<close> of a resident page with a pin and
  \<^verbatim>\<open>DeletePage\<close> of a resident page without one run to the end.
\<close>

lemma UnpinPage_pinned:
  assumes "resident s pid f page" and "pin_count page \<noteq> 0" and "- (2 ^ 31) < pin_count page"
    and "pin_count page = 1 \<longrightarrow> SetEvictable (replacer s) f True = Inr r"
  shows "UnpinPage s pid dirty =
           Inr (True,
                set_page (s\<lparr>replacer := (if pin_count page = 1 then r else replacer s)\<rparr>) f
                  (page\<lparr>pin_count := pin_count page - 1, is_dirty := (is_dirty page \<or> dirty)\<rparr>))"
  using assms by (auto simp: UnpinPage_def resident_def Let_def)

lemma UnpinPage_reachable:
  assumes "run_bpm_ops (BufferPoolManager_init n dm k) ops = Inr s"
    and "resident s pid f page" and "pin_count page \<noteq> 0"
  shows "\<exists>s'. UnpinPage s pid dirty = Inr (True, s') \<and>
           page_at s' f =
             Inr (page\<lparr>pin_count := pin_count page - 1, is_dirty := (is_dirty page \<or> dirty)\<rparr>)"
proof -
  from reachable_calls_succeed(1,2) [OF assms(1,2)] obtain r where
    p: "0 \<le> pin_count page" and r: "SetEvictable (replacer s) f True = Inr r"
    by blast
  from p have "- (2 ^ 31) < pin_count page" by simp
  from UnpinPage_pinned [OF assms(2,3) this, of r dirty] r
  have "UnpinPage s pid dirty =
           Inr (True,
                set_page (s\<lparr>replacer := (if pin_count page = 1 then r else replacer s)\<rparr>) f
                  (page\<lparr>pin_count := pin_count page - 1, is_dirty := (is_dirty page \<or> dirty)\<rparr>))"
    by simp
  moreover from assms(2) have "0 \<le> f \<and> nat f < length (pages s)"
    by (auto simp: resident_def dest: page_at_Inr)
  ultimately show ?thesis
    by (simp add: page_at_def set_page_def)
qed

lemma DeletePage_reachable:
  assumes "run_bpm_ops (BufferPoolManager_init n dm k) ops = Inr s"
    and "resident s pid f page" and "pin_count page \<le> 0"
  shows "\<exists>s'. DeletePage s pid = Inr (True, s') \<and>
           page_table s' = (page_table s)(pid := None) \<and>
           node_store (replacer s') f = None \<and>
           free_list s' = free_list s @ [f] \<and>
           page_at s' f = Inr empty_page \<and>
           disk_pages (disk_manager s') = disk_pages (disk_manager s) \<and>
           disk_log (disk_manager s') = disk_log (disk_manager s) @ [Ev_DeallocatePage pid]"
proof -
  from reachable_calls_succeed(1) [OF assms(1,2)] assms(3) have "pin_count page = 0"
    by simp
  from reachable_calls_succeed(3) [OF assms(1,2) this] obtain r where
    r: "Remove (replacer s) f = Inr r"
    by blast
  from assms(2) have "0 \<le> f \<and> nat f < length (pages s)"
    by (auto simp: resident_def dest: page_at_Inr)
  with DeletePage_unpinned [OF assms(2,3) r] Remove_untracks [OF r] show ?thesis
    by (simp add: DeallocatePage_def set_page_def page_at_def)
qed

subsection \<open>The calls of the manager\<close>

text \<open>
  Claim C7. \<^verbatim>\<open>UnpinPage(page_id, is_dirty)\<close> returns false when the page is not resident
  or its frame's pin count is zero. Otherwise it decrements the pin count, marks the frame
  evictable in the replacer exactly when the count reaches zero (the replacer is left alone
  otherwise), ORs \<open>is_dirty\<close> into the frame's dirty flag and returns true. The call of
  \<^verbatim>\<open>SetEvictable\<close> made when the count reaches zero is taken with its result \<open>r\<close>.
\<close>

theorem UnpinPage_behaviour:
  "(page_table s pid = None \<longrightarrow> UnpinPage s pid dirty = Inr (False, s)) \<and>
   (resident s pid frame_id page \<and> pin_count page = 0 \<longrightarrow> UnpinPage s pid dirty = Inr (False, s)) \<and>
   (resident s pid frame_id page \<and> pin_count page \<noteq> 0 \<and> - (2 ^ 31) < pin_count page \<and>
    (pin_count page = 1 \<longrightarrow> SetEvictable (replacer s) frame_id True = Inr r) \<longrightarrow>
      (\<exists>s'. UnpinPage s pid dirty = Inr (True, s') \<and>
            page_at s' frame_id =
              Inr (page\<lparr>pin_count := pin_count page - 1, is_dirty := (is_dirty page \<or> dirty)\<rparr>) \<and>
            replacer s' = (if pin_count page = 1 then r else replacer s) \<and>
            (pin_count page = 1 \<longrightarrow>
               (\<forall>a. node_store (replacer s) frame_id = Some a \<longrightarrow>
                  (\<exists>node. heap (replacer s') a = Some node \<and> is_evictable node)))))"
proof (intro conjI impI)
  assume "page_table s pid = None"
  then show "UnpinPage s pid dirty = Inr (False, s)"
    by (simp add: UnpinPage_def)
next
  assume "resident s pid frame_id page \<and> pin_count page = 0"
  then show "UnpinPage s pid dirty = Inr (False, s)"
    by (simp add: UnpinPage_def resident_def)
next
  assume h: "resident s pid frame_id page \<and> pin_count page \<noteq> 0 \<and> - (2 ^ 31) < pin_count page \<and>
    (pin_count page = 1 \<longrightarrow> SetEvictable (replacer s) frame_id True = Inr r)"
  then have res: "page_table s pid = Some frame_id" "page_at s frame_id = Inr page"
    by (simp_all add: resident_def)
  from res(2) have rng: "0 \<le> frame_id" "nat frame_id < length (pages s)"
    by (auto simp: page_at_def split: if_splits)
  let ?page' = "page\<lparr>pin_count := pin_count page - 1, is_dirty := (is_dirty page \<or> dirty)\<rparr>"
  let ?r' = "if pin_count page = 1 then r else replacer s"
  let ?s' = "set_page (s\<lparr>replacer := ?r'\<rparr>) frame_id ?page'"
  have run: "UnpinPage s pid dirty = Inr (True, ?s')"
    using h res by (auto simp: UnpinPage_def Let_def)
  have pg: "page_at ?s' frame_id = Inr ?page'"
    using rng by (simp add: page_at_def set_page_def)
  have rp: "replacer ?s' = ?r'"
    by (simp add: set_page_def)
  have mark: "pin_count page = 1 \<longrightarrow>
               (\<forall>a. node_store (replacer s) frame_id = Some a \<longrightarrow>
                  (\<exists>node. heap (replacer ?s') a = Some node \<and> is_evictable node))"
    using h SetEvictable_True_marks [of "replacer s" frame_id r] by (auto simp: set_page_def)
  show "\<exists>s'. UnpinPage s pid dirty = Inr (True, s') \<and>
            page_at s' frame_id = Inr ?page' \<and>
            replacer s' = ?r' \<and>
            (pin_count page = 1 \<longrightarrow>
               (\<forall>a. node_store (replacer s) frame_id = Some a \<longrightarrow>
                  (\<exists>node. heap (replacer s') a = Some node \<and> is_evictable node)))"
    using run pg rp mark by blast
qed

theorem UnpinPage_behaviour_witness:
  "page_table bpm_pinned 7 = None \<and> UnpinPage bpm_pinned 7 True = Inr (False, bpm_pinned) \<and>
   resident bpm_unpinned 0 0 \<lparr>data = zeroed, page_id = 0, pin_count = 0, is_dirty = True\<rparr> \<and>
   UnpinPage bpm_unpinned 0 False = Inr (False, bpm_unpinned) \<and>
   resident bpm_pinned 0 0 \<lparr>data = zeroed, page_id = 0, pin_count = 1, is_dirty = False\<rparr> \<and>
   SetEvictable (replacer bpm_pinned) 0 True = Inr (replacer bpm_unpinned) \<and>
   (\<exists>s'. UnpinPage bpm_pinned 0 True = Inr (True, s') \<and>
         page_at s' 0 = Inr \<lparr>data = zeroed, page_id = 0, pin_count = 0, is_dirty = True\<rparr> \<and>
         replacer s' = replacer bpm_unpinned \<and>
         heap (replacer s') 0 = Some \<lparr>history = [1], fid = 0, is_evictable = True\<rparr>)"
proof -
  let ?p1 = "\<lparr>data = zeroed, page_id = 0, pin_count = 1, is_dirty = False\<rparr>"
  let ?p0 = "\<lparr>data = zeroed, page_id = 0, pin_count = 0, is_dirty = True\<rparr>"
  have a: "page_table bpm_pinned 7 = None"
    by (simp add: bpm_pinned_def)
  have b: "resident bpm_unpinned 0 0 ?p0"
    by (simp add: resident_def bpm_unpinned_def page_at_def)
  have c: "resident bpm_pinned 0 0 ?p1"
    by (simp add: resident_def bpm_pinned_def page_at_def)
  have d: "SetEvictable (replacer bpm_pinned) 0 True = Inr (replacer bpm_unpinned)"
    by (simp add: bpm_pinned_def bpm_unpinned_def replacer_defs)
  have e: "heap (replacer bpm_unpinned) 0 = Some \<lparr>history = [1], fid = 0, is_evictable = True\<rparr>"
    by (simp add: bpm_unpinned_def)
  from a UnpinPage_behaviour [of bpm_pinned 7 True]
  have 1: "UnpinPage bpm_pinned 7 True = Inr (False, bpm_pinned)"
    by simp
  from b UnpinPage_behaviour [of bpm_unpinned 0 False 0 ?p0]
  have 2: "UnpinPage bpm_unpinned 0 False = Inr (False, bpm_unpinned)"
    by simp
  from c d UnpinPage_behaviour [of bpm_pinned 0 True 0 ?p1 "replacer bpm_unpinned"]
  have 3: "\<exists>s'. UnpinPage bpm_pinned 0 True = Inr (True, s') \<and>
         page_at s' 0 = Inr ?p0 \<and> replacer s' = replacer bpm_unpinned"
    by auto
  from a b c d e 1 2 3 show ?thesis
    by auto
qed

text \<open>
  Claim C10. Whenever \<^verbatim>\<open>UnpinPage\<close> returns false the manager is unchanged; in
  particular \<^verbatim>\<open>UnpinPage(page_id, true)\<close> on a resident page whose pin count is zero
  returns false and leaves the dirty flag, the pin count and the replacer as they were.
\<close>

theorem UnpinPage_false_unchanged:
  "(UnpinPage s pid dirty = Inr (False, s') \<longrightarrow> s' = s) \<and>
   (resident s pid frame_id page \<and> pin_count page = 0 \<longrightarrow> UnpinPage s pid True = Inr (False, s))"
  by (auto simp: UnpinPage_def resident_def Let_def split: option.splits sum.splits if_splits)

theorem UnpinPage_false_unchanged_witness:
  "resident bpm_unpinned 0 0 \<lparr>data = zeroed, page_id = 0, pin_count = 0, is_dirty = True\<rparr> \<and>
   UnpinPage bpm_unpinned 0 True = Inr (False, bpm_unpinned) \<and>
   UnpinPage bpm_pinned 7 True = Inr (False, bpm_pinned)"
proof -
  let ?p0 = "\<lparr>data = zeroed, page_id = 0, pin_count = 0, is_dirty = True\<rparr>"
  have b: "resident bpm_unpinned 0 0 ?p0"
    by (simp add: resident_def bpm_unpinned_def page_at_def)
  have c: "\<exists>s'. UnpinPage bpm_pinned 7 True = Inr (False, s')"
    by (simp add: UnpinPage_def bpm_pinned_def)
  then obtain s' where s': "UnpinPage bpm_pinned 7 True = Inr (False, s')" ..
  with UnpinPage_false_unchanged [of bpm_pinned 7 True s'] have "s' = bpm_pinned"
    by simp
  with s' b UnpinPage_false_unchanged [of bpm_unpinned 0 True bpm_unpinned 0 ?p0]
  show ?thesis by simp
qed



text \<open>
  Claim C9. \<^verbatim>\<open>DeletePage\<close> of a resident, unpinned page whose frame is dirty discards
  the modifications made in memory and never writes them: the page leaves the page table,
  its frame is reset to zeroed memory with the invalid page id, pin count 0 and a clean
  flag, and no other frame changes; the bytes on disk are what they were, and the only
  call the disk manager receives is the advisory \<^verbatim>\<open>DeallocatePage\<close>, so no
  \<^verbatim>\<open>WritePage\<close> is made. The call of \<^verbatim>\<open>Remove\<close> is taken with its result \<open>r\<close>.
\<close>

theorem DeletePage_dirty_not_written:
  "resident s pid frame_id page \<and> pin_count page \<le> 0 \<and> is_dirty page \<and>
   Remove (replacer s) frame_id = Inr r \<longrightarrow>
     (\<exists>s'. DeletePage s pid = Inr (True, s') \<and>
           page_table s' = (page_table s)(pid := None) \<and>
           pages s' = (pages s)[nat frame_id :=
                        \<lparr>data = zeroed, page_id = INVALID_PAGE_ID, pin_count = 0, is_dirty = False\<rparr>] \<and>
           page_at s' frame_id =
             Inr \<lparr>data = zeroed, page_id = INVALID_PAGE_ID, pin_count = 0, is_dirty = False\<rparr> \<and>
           disk_pages (disk_manager s') = disk_pages (disk_manager s) \<and>
           disk_log (disk_manager s') = disk_log (disk_manager s) @ [Ev_DeallocatePage pid])"
proof
  assume h: "resident s pid frame_id page \<and> pin_count page \<le> 0 \<and> is_dirty page \<and>
    Remove (replacer s) frame_id = Inr r"
  then have range: "0 \<le> frame_id \<and> nat frame_id < length (pages s)"
    by (auto simp: resident_def page_at_def split: if_splits)
  from h have a: "resident s pid frame_id page" "pin_count page \<le> 0"
    "Remove (replacer s) frame_id = Inr r"
    by simp_all
  note run = DeletePage_unpinned [OF a]
  from range show "\<exists>s'. DeletePage s pid = Inr (True, s') \<and>
           page_table s' = (page_table s)(pid := None) \<and>
           pages s' = (pages s)[nat frame_id :=
                        \<lparr>data = zeroed, page_id = INVALID_PAGE_ID, pin_count = 0, is_dirty = False\<rparr>] \<and>
           page_at s' frame_id =
             Inr \<lparr>data = zeroed, page_id = INVALID_PAGE_ID, pin_count = 0, is_dirty = False\<rparr> \<and>
           disk_pages (disk_manager s') = disk_pages (disk_manager s) \<and>
           disk_log (disk_manager s') = disk_log (disk_manager s) @ [Ev_DeallocatePage pid]"
    unfolding run
    by (simp add: DeallocatePage_def set_page_def page_at_def empty_page_def)
qed

theorem DeletePage_dirty_not_written_witness:
  "resident bpm_scribbled 0 0 \<lparr>data = scribbled, page_id = 0, pin_count = 0, is_dirty = True\<rparr> \<and>
   scribbled \<noteq> zeroed \<and>
   Remove (replacer bpm_scribbled) 0 = Inr (replacer bpm_deleted) \<and>
   disk_manager bpm_scribbled = disk0 \<and>
   (\<exists>s'. DeletePage bpm_scribbled 0 = Inr (True, s') \<and>
         page_table s' 0 = None \<and>
         pages s' = [\<lparr>data = zeroed, page_id = INVALID_PAGE_ID, pin_count = 0, is_dirty = False\<rparr>] \<and>
         disk_pages (disk_manager s') = disk_pages disk0 \<and>
         disk_log (disk_manager s') = [Ev_DeallocatePage 0])"
proof -
  let ?p0 = "\<lparr>data = scribbled, page_id = 0, pin_count = 0, is_dirty = True\<rparr>"
  have scr: "scribbled \<noteq> zeroed"
  proof
    assume "scribbled = zeroed"
    then have "scribbled ! 0 = zeroed ! 0"
      by simp
    then show False
      by (simp add: scribbled_def zeroed_def PAGE_SIZE_def)
  qed
  have b: "resident bpm_scribbled 0 0 ?p0"
    by (simp add: resident_def bpm_scribbled_def bpm_unpinned_def page_at_def)
  have d: "Remove (replacer bpm_scribbled) 0 = Inr (replacer bpm_deleted)"
    by (simp add: bpm_scribbled_def bpm_unpinned_def bpm_deleted_def replacer_defs)
  have e: "disk_manager bpm_scribbled = disk0" "disk_log disk0 = []"
    "pages bpm_scribbled = [?p0]" "page_table bpm_scribbled = [0 \<mapsto> 0]"
    by (simp_all add: bpm_scribbled_def bpm_unpinned_def disk0_def)
  from b d e scr DeletePage_dirty_not_written [of bpm_scribbled 0 0 ?p0 "replacer bpm_deleted"]
  show ?thesis
    by auto
qed

text \<open>
  \<^verbatim>\<open>NewPage\<close> and \<^verbatim>\<open>FetchPage\<close> return null exactly when the free list is empty and
  \<^verbatim>\<open>Size()\<close> is zero.
\<close>

lemma NewPage_null:
  "NewPage s = Inr (None, pid, s') \<longleftrightarrow>
     free_list s = [] \<and> Size (replacer s) = 0 \<and> pid = INVALID \<and> s' = s"
proof (cases "free_list s = [] \<and> Size (replacer s) = 0")
  case True
  then show ?thesis by (auto simp: NewPage_def)
next
  case False
  then have "NewPage s \<noteq> Inr (None, pid, s')"
    by (auto simp: NewPage_def AllocatePage_def split: sum.splits prod.splits)
  with False show ?thesis by blast
qed

lemma FetchPage_null:
  assumes "page_table s pid = None"
  shows "FetchPage s pid = Inr (None, s') \<longleftrightarrow>
     free_list s = [] \<and> Size (replacer s) = 0 \<and> s' = s"
proof (cases "free_list s = [] \<and> Size (replacer s) = 0")
  case True
  with assms show ?thesis by (auto simp: FetchPage_def)
next
  case False
  with assms have "FetchPage s pid \<noteq> Inr (None, s')"
    by (auto simp: FetchPage_def ReadPage_def split: sum.splits prod.splits)
  with False show ?thesis by blast
qed

lemma FetchPage_resident:
  assumes "page_table s pid = Some f"
  shows "FetchPage s pid \<noteq> Inr (None, s')"
  using assms by (simp add: FetchPage_def split: sum.splits option.splits)

text \<open>
  Claim C6. \<^verbatim>\<open>NewPage\<close> and \<^verbatim>\<open>FetchPage\<close> of a non-resident page are to return null
  exactly when the free list is empty and the replacer has no evictable frame, and a frame
  in every other case. Both test \<^verbatim>\<open>replacer_->Size() == 0\<close>, and \<^verbatim>\<open>Size()\<close> stays one
  too high after every \<^verbatim>\<open>DeletePage\<close> of a resident page. On a pool of one frame, after
  \<^verbatim>\<open>NewPage\<close>, \<^verbatim>\<open>UnpinPage\<close>, \<^verbatim>\<open>DeletePage\<close> and \<^verbatim>\<open>NewPage\<close> the only frame is
  pinned: the free list is empty and \<^verbatim>\<open>Evict\<close> finds nothing, but \<^verbatim>\<open>Size()\<close> is 1, so
  neither call returns null; each goes on to \<^verbatim>\<open>GetFreeFrame\<close>, which has no frame to give.
\<close>

theorem NewPage_after_DeletePage_exhausted:
  "\<exists>s. run_bpm_ops (BufferPoolManager_init 1 disk0 2)
          [Op_NewPage, Op_UnpinPage 0 False, Op_DeletePage 0, Op_NewPage] = Inr s
     \<and> free_list s = [] \<and> Evict (replacer s) = Inr (None, replacer s) \<and> Size (replacer s) = 1
     \<and> page_table s 7 = None
     \<and> NewPage s = Inl Logic_error \<and> FetchPage s 7 = Inl Logic_error"
  by (simp add: bpm_defs replacer_defs disk0_def)

end
